theory Spec2Isabelle
  imports Main
begin

section \<open>Characters and strings\<close>

text \<open>
  Python \<open>str\<close> values are modelled as \<open>string\<close>: a character stands for the code
  point of its number, so the strings of the model are the Python strings of code points
  below 256 (Latin-1 text). \<open>[a-zA-Z]\<close>, \<open>[0-9]\<close>, \<open>[_-]\<close> and \<open>[=:]\<close> accept exactly
  the ASCII characters listed. \<open>\s\<close>, \<open>\w\<close> and the case folding of \<open>re.I\<close> follow
  Python 3 on \<open>str\<close> patterns, where they are Unicode-aware: below 256, \<open>\s\<close> also
  accepts the next-line control \<open>0x85\<close> and the no-break space \<open>0xA0\<close>, \<open>\w\<close> also
  accepts the Latin-1 letters and numeric characters, and \<open>re.I\<close> also folds the Latin-1
  capital letters.
\<close>

definition code :: "char \<Rightarrow> nat" where
  "code c = of_char c"

definition lowercase :: string where
  "lowercase = ''abcdefghijklmnopqrstuvwxyz''"

definition uppercase :: string where
  "uppercase = ''ABCDEFGHIJKLMNOPQRSTUVWXYZ''"

definition digits :: string where
  "digits = ''0123456789''"

definition is_alpha :: "char \<Rightarrow> bool" where
  \<comment> \<open>\<open>[a-zA-Z]\<close>\<close>
  "is_alpha c = (c \<in> set (lowercase @ uppercase))"

definition is_digit :: "char \<Rightarrow> bool" where
  \<comment> \<open>\<open>[0-9]\<close>\<close>
  "is_digit c = (c \<in> set digits)"

definition is_sep :: "char \<Rightarrow> bool" where
  \<comment> \<open>\<open>[_-]\<close>\<close>
  "is_sep c = (c \<in> set ''_-'')"

definition is_space :: "char \<Rightarrow> bool" where
  \<comment> \<open>\<open>\s\<close>: space, \<open>\t \n \v \f \r\<close>, the separators \<open>0x1C..0x1F\<close>, next line and
      no-break space\<close>
  "is_space c = (c \<in> set [CHR 0x20, CHR 0x09, CHR 0x0A, CHR 0x0B, CHR 0x0C, CHR 0x0D,
                            CHR 0x1C, CHR 0x1D, CHR 0x1E, CHR 0x1F, CHR 0x85, CHR 0xA0])"

definition latin1_word :: "char \<Rightarrow> bool" where
  \<comment> \<open>the characters from \<open>0x80\<close> to \<open>0xFF\<close> that \<open>\w\<close> accepts: the letters (all of
      \<open>0xC0..0xFF\<close> but the signs \<open>0xD7\<close> and \<open>0xF7\<close>, the ordinal indicators and the
      micro sign) and the superscript digits and fractions\<close>
  "latin1_word c =
     (let n = code c in
      n \<in> set [0xAA, 0xB2, 0xB3, 0xB5, 0xB9, 0xBA, 0xBC, 0xBD, 0xBE] \<or>
      (0xC0 \<le> n \<and> n \<le> 0xD6) \<or> (0xD8 \<le> n \<and> n \<le> 0xF6) \<or> (0xF8 \<le> n \<and> n \<le> 0xFF))"

definition is_word_or_dash :: "char \<Rightarrow> bool" where
  \<comment> \<open>\<open>[\w-]\<close>\<close>
  "is_word_or_dash c =
     (c \<in> set (lowercase @ uppercase @ digits @ ''_-'') \<or> latin1_word c)"

definition is_eq_colon :: "char \<Rightarrow> bool" where
  \<comment> \<open>\<open>[=:]\<close>\<close>
  "is_eq_colon c = (c \<in> set ''=:'')"

definition is_dquote :: "char \<Rightarrow> bool" where
  "is_dquote c = (c = CHR 0x22)"

definition upper_char :: "char \<Rightarrow> char" where
  "upper_char c = (case map_of (zip lowercase uppercase) c of Some u \<Rightarrow> u | None \<Rightarrow> c)"

definition lower_char :: "char \<Rightarrow> char" where
  \<comment> \<open>the lower-case folding of \<open>re.I\<close>: the capitals \<open>A..Z\<close>, \<open>0xC0..0xD6\<close> and
      \<open>0xD8..0xDE\<close> lie 32 below their small letters; every other character below 256
      is its own lower case\<close>
  "lower_char c =
     (let n = code c in
      if (0x41 \<le> n \<and> n \<le> 0x5A) \<or> (0xC0 \<le> n \<and> n \<le> 0xD6) \<or> (0xD8 \<le> n \<and> n \<le> 0xDE)
      then char_of (n + 32) else c)"

definition upper :: "string \<Rightarrow> string" where
  \<comment> \<open>\<open>str.upper()\<close>; the source applies it to letters, digits and \<open>-\<close> only\<close>
  "upper s = map upper_char s"

section \<open>Regular expressions of the source\<close>

text \<open>
  Every pattern of the source is a sequence of quantified character classes, some of them
  captured as a group. \<open>match_items\<close> matches such a sequence at the start of a string
  the way Python's \<open>re\<close> does: each item first takes as many characters as it can,
  and gives them back one at a time while the rest of the pattern fails.
  The result is the list of captured groups.
\<close>

datatype quant = One | Opt | Star | Plus

datatype item = Item "char \<Rightarrow> bool" quant bool

fun qmin :: "quant \<Rightarrow> nat" where
  "qmin One = 1"
| "qmin Opt = 0"
| "qmin Star = 0"
| "qmin Plus = 1"

fun qcap :: "quant \<Rightarrow> nat \<Rightarrow> nat" where
  \<comment> \<open>the most characters an item may take out of a run of \<open>n\<close> matching ones\<close>
  "qcap One n = min 1 n"
| "qcap Opt n = min 1 n"
| "qcap Star n = n"
| "qcap Plus n = n"

fun try_len :: "(string \<Rightarrow> string list option) \<Rightarrow> nat \<Rightarrow> string \<Rightarrow> nat
                  \<Rightarrow> (string \<times> string list) option" where
  "try_len k lo s 0 =
     (if 0 < lo then None
      else case k s of Some caps \<Rightarrow> Some ([], caps) | None \<Rightarrow> None)"
| "try_len k lo s (Suc n) =
     (if Suc n < lo then None
      else case k (drop (Suc n) s) of
             Some caps \<Rightarrow> Some (take (Suc n) s, caps)
           | None \<Rightarrow> try_len k lo s n)"

primrec match_items :: "item list \<Rightarrow> string \<Rightarrow> string list option" where
  "match_items [] = (\<lambda>s. Some [])"
| "match_items (it # rest) = (\<lambda>s.
     case it of Item cls q grp \<Rightarrow>
       (case try_len (match_items rest) (qmin q) s (qcap q (length (takeWhile cls s))) of
          None \<Rightarrow> None
        | Some (piece, caps) \<Rightarrow> Some (if grp then piece # caps else caps)))"

fun re_search :: "item list \<Rightarrow> string \<Rightarrow> string list option" where
  \<comment> \<open>\<open>re.search\<close>: the match at the leftmost position where the pattern matches\<close>
  "re_search p [] = match_items p []"
| "re_search p (c # cs) =
     (case match_items p (c # cs) of Some caps \<Rightarrow> Some caps | None \<Rightarrow> re_search p cs)"

fun is_group :: "item \<Rightarrow> bool" where
  "is_group (Item cls q grp) = grp"

text \<open>
  What a pattern accepts, apart from the order in which the matcher tries: \<open>fits p u caps\<close>
  holds when the text \<open>u\<close> splits into one piece for each item of \<open>p\<close>, every piece
  made of characters of the item's class and of a length its quantifier allows, with
  \<open>caps\<close> the pieces of the groups.
\<close>

fun qmax_ok :: "quant \<Rightarrow> nat \<Rightarrow> bool" where
  "qmax_ok One n = (n \<le> 1)"
| "qmax_ok Opt n = (n \<le> 1)"
| "qmax_ok Star n = True"
| "qmax_ok Plus n = True"

inductive fits :: "item list \<Rightarrow> string \<Rightarrow> string list \<Rightarrow> bool" where
  fits_Nil: "fits [] [] []"
| fits_Cons: "fits rest u caps \<Longrightarrow> list_all cls piece \<Longrightarrow> qmin q \<le> length piece \<Longrightarrow>
     qmax_ok q (length piece) \<Longrightarrow>
     fits (Item cls q grp # rest) (piece @ u) (if grp then piece # caps else caps)"

definition quote_opt :: "string \<Rightarrow> bool" where
  "quote_opt q = (q = [] \<or> q = [CHR 0x22])"

section \<open>Name normalization\<close>

definition pline :: "item list" where
  \<comment> \<open>\<open>^([a-zA-Z]+)[_-]*([0-9]+)[_-]+([0-9]+)\<close>\<close>
  "pline = [Item is_alpha Plus True, Item is_sep Star False, Item is_digit Plus True,
            Item is_sep Plus False, Item is_digit Plus True]"

definition parea :: "item list" where
  \<comment> \<open>\<open>^([a-zA-Z]+)[_-]+([0-9]+)\<close>\<close>
  "parea = [Item is_alpha Plus True, Item is_sep Plus False, Item is_digit Plus True]"

definition chano :: "string \<Rightarrow> string" where
  "chano ano = (if length ano = 2 then ''19'' @ ano else ano)"

text \<open>
  The normalizers are modelled on \<open>str\<close> arguments. On a match they return the
  normalized name; otherwise \<open>groups()\<close> of \<open>None\<close> raises \<open>AttributeError\<close>, which is
  caught, the error line is printed and the function returns \<open>None\<close>. (Called with \<open>None\<close>
  instead of a string, \<open>normNameLine\<close> raises \<open>TypeError\<close> at its first \<open>search\<close>,
  outside the \<open>try\<close>, while \<open>normNameArea\<close> catches it.)
\<close>

definition normNameLine :: "string \<Rightarrow> string option" where
  \<comment> \<open>the pattern starts with \<open>^\<close>, so \<open>search\<close> can only match at offset 0;
      a failed match prints the error line and returns \<open>None\<close>\<close>
  "normNameLine name =
     (case match_items pline name of
        Some [name', ano, num] \<Rightarrow> Some (upper (name' @ ''-'' @ chano ano @ ''-'' @ num))
      | _ \<Rightarrow> None)"

definition normNameArea :: "string \<Rightarrow> string option" where
  "normNameArea name =
     (case match_items parea name of
        Some [name', ano] \<Rightarrow> Some (upper (name' @ ''-'' @ ano))
      | _ \<Rightarrow> None)"

text \<open>
  The deterministic reading of the two patterns: consecutive classes of \<open>pline\<close> and
  \<open>parea\<close> are disjoint, so each item takes the whole run of its class. The lemmas below
  prove that \<open>match_items\<close> computes exactly this.
\<close>

definition scan_line :: "string \<Rightarrow> string list option" where
  "scan_line s =
     (let a = takeWhile is_alpha s; r1 = dropWhile is_alpha s;
          r2 = dropWhile is_sep r1;
          y = takeWhile is_digit r2; r3 = dropWhile is_digit r2;
          p = takeWhile is_sep r3; r4 = dropWhile is_sep r3;
          n = takeWhile is_digit r4
      in if a = [] \<or> y = [] \<or> p = [] \<or> n = [] then None else Some [a, y, n])"

definition scan_area :: "string \<Rightarrow> string list option" where
  "scan_area s =
     (let a = takeWhile is_alpha s; r1 = dropWhile is_alpha s;
          p = takeWhile is_sep r1; r2 = dropWhile is_sep r1;
          y = takeWhile is_digit r2
      in if a = [] \<or> p = [] \<or> y = [] then None else Some [a, y])"

subsection \<open>The canonical identifier of the specification\<close>

text \<open>
  The specification's data model calls a normalized name a canonical identifier:
  upper-case, \<open>NAME-YEAR-NUMBER\<close> for a line and \<open>NAME-YEAR\<close> for an area, the year of
  exactly four digits. \<open>canonical_line\<close> and \<open>canonical_area\<close> follow these words;
  \<open>line_form\<close> and \<open>area_form\<close> are the same shapes with a year of any length.
\<close>

fun split_on :: "char \<Rightarrow> string \<Rightarrow> string list" where
  "split_on d [] = [[]]"
| "split_on d (c # cs) =
     (if c = d then [] # split_on d cs
      else case split_on d cs of w # ws \<Rightarrow> (c # w) # ws | [] \<Rightarrow> [[c]])"

definition is_upper_name :: "string \<Rightarrow> bool" where
  "is_upper_name s = (s \<noteq> [] \<and> list_all (\<lambda>c. c \<in> set uppercase) s)"

definition is_number :: "string \<Rightarrow> bool" where
  "is_number s = (s \<noteq> [] \<and> list_all is_digit s)"

definition line_form :: "string \<Rightarrow> bool" where
  "line_form r =
     (case split_on CHR ''-'' r of
        [name, year, num] \<Rightarrow> is_upper_name name \<and> is_number year \<and> is_number num
      | _ \<Rightarrow> False)"

definition area_form :: "string \<Rightarrow> bool" where
  "area_form r =
     (case split_on CHR ''-'' r of
        [name, year] \<Rightarrow> is_upper_name name \<and> is_number year
      | _ \<Rightarrow> False)"

definition canonical_line :: "string \<Rightarrow> bool" where
  "canonical_line r =
     (upper r = r \<and>
      (case split_on CHR ''-'' r of
         [name, year, num] \<Rightarrow>
           is_upper_name name \<and> is_number year \<and> length year = 4 \<and> is_number num
       | _ \<Rightarrow> False))"

definition canonical_area :: "string \<Rightarrow> bool" where
  "canonical_area r =
     (upper r = r \<and>
      (case split_on CHR ''-'' r of
         [name, year] \<Rightarrow> is_upper_name name \<and> is_number year \<and> length year = 4
       | _ \<Rightarrow> False))"

section \<open>Locating the header\<close>

text \<open>
  A file is the list of its lines, each with its terminator, as iterating over
  \<open>open(doc)\<close> yields them. A Python function that falls off its end returns \<open>None\<close>;
  an exception is a value of \<open>py_error\<close>.
\<close>

datatype py_error = UnboundLocalError | TypeError | IndexError

fun skiprows_header_after_loop ::
  "string \<Rightarrow> bool \<Rightarrow> nat \<Rightarrow> string list \<Rightarrow> (nat \<times> string) option" where
  "skiprows_header_after_loop mark return_next n [] = None"
| "skiprows_header_after_loop mark return_next n (r # rs) =
     (if return_next then Some (n, r)
      else skiprows_header_after_loop mark
             (if take (length mark) r = mark then True else return_next) (Suc n) rs)"

definition skiprows_header_after :: "string list \<Rightarrow> string \<Rightarrow> (nat \<times> string) option" where
  "skiprows_header_after doc mark = skiprows_header_after_loop mark False 0 doc"

text \<open>
  In \<open>_skiprows_header_before\<close> the variable \<open>rold\<close> is bound only after the first line
  has been passed: a mark on the first line reads it unbound.
\<close>

fun skiprows_header_before_loop ::
  "string \<Rightarrow> string option \<Rightarrow> nat \<Rightarrow> string list \<Rightarrow> py_error + (nat \<times> string) option" where
  "skiprows_header_before_loop mark rold n [] = Inr None"
| "skiprows_header_before_loop mark rold n (r # rs) =
     (if take (length mark) r = mark
      then (case rold of None \<Rightarrow> Inl UnboundLocalError | Some h \<Rightarrow> Inr (Some (n, h)))
      else skiprows_header_before_loop mark (Some r) (Suc n) rs)"

definition skiprows_header_before ::
  "string list \<Rightarrow> string \<Rightarrow> py_error + (nat \<times> string) option" where
  "skiprows_header_before doc mark = skiprows_header_before_loop mark None 0 doc"

section \<open>Column widths of a fixed-width header\<close>

fun run_starts :: "bool \<Rightarrow> nat \<Rightarrow> string \<Rightarrow> nat list" where
  \<comment> \<open>the offsets at which a maximal run of whitespace begins; \<open>inside\<close> tells that the
      character before offset \<open>i\<close> was whitespace\<close>
  "run_starts inside i [] = []"
| "run_starts inside i (c # cs) =
     (if is_space c \<and> \<not> inside then i # run_starts True (Suc i) cs
      else run_starts (is_space c) (Suc i) cs)"

definition ws_starts :: "string \<Rightarrow> nat list" where
  \<comment> \<open>\<open>[m.start() for m in re.finditer(r'\s+', header)]\<close>\<close>
  "ws_starts header = run_starts False 0 header"

definition run_start_at :: "string \<Rightarrow> nat \<Rightarrow> bool" where
  \<comment> \<open>offset \<open>i\<close> of the line holds whitespace and the character before it, if any,
      does not: a whitespace run starts at \<open>i\<close>\<close>
  "run_start_at h i = (is_space (h ! i) \<and> (i = 0 \<or> \<not> is_space (h ! (i - 1))))"

definition diffs :: "nat list \<Rightarrow> int list" where
  \<comment> \<open>\<open>[t-s for s, t in zip(w, w[1:])]\<close>\<close>
  "diffs w = map (\<lambda>(s, t). int t - int s) (zip w (tl w))"

definition header_widths :: "string \<Rightarrow> py_error + int list" where
  \<comment> \<open>\<open>w[0] = w[0]+1\<close> raises \<open>IndexError\<close> on an empty list\<close>
  "header_widths header =
     (case diffs (ws_starts header) of
        [] \<Rightarrow> Inl IndexError
      | w0 # ws \<Rightarrow> Inr ((w0 + 1) # ws))"

definition widths_skiprows :: "string list \<Rightarrow> py_error + (int list \<times> nat)" where
  \<comment> \<open>unpacking the \<open>None\<close> of a failed header search raises \<open>TypeError\<close>\<close>
  "widths_skiprows doc =
     (case skiprows_header_after doc ''<<'' of
        None \<Rightarrow> Inl TypeError
      | Some (skiprows, header) \<Rightarrow>
          (case header_widths header of
             Inl e \<Rightarrow> Inl e
           | Inr w \<Rightarrow> Inr (w, skiprows)))"

section \<open>Metadata from free text\<close>

definition ptarget :: "string \<Rightarrow> item list" where
  \<comment> \<open>\<open>re.escape(target) + r'\s*[=:]\s*\"?([\w-]+)\"?'\<close> under \<open>re.I\<close>: a character of
      the key matches the characters with the same lower case; the classes \<open>\s\<close>,
      \<open>[=:]\<close>, \<open>"\<close> and \<open>[\w-]\<close> are closed under case\<close>
  "ptarget target =
     map (\<lambda>t. Item (\<lambda>c. lower_char c = lower_char t) One False) target @
     [Item is_space Star False, Item is_eq_colon One False, Item is_space Star False,
      Item is_dquote Opt False, Item is_word_or_dash Plus True, Item is_dquote Opt False]"

fun promax2meta :: "string list \<Rightarrow> string \<Rightarrow> string option" where
  "promax2meta [] target = None"
| "promax2meta (line # rest) target =
     (case re_search (ptarget target) line of
        Some (g # _) \<Rightarrow> Some g
      | _ \<Rightarrow> promax2meta rest target)"

section \<open>Schema inference\<close>

text \<open>
  Of a DataFrame, \<open>cols\<close> reads the name and dtype of the index and the names and dtypes
  of the columns. An index without a name has the name \<open>None\<close>.
\<close>

record dataframe =
  index_name :: "string option"
  index_dtype :: string
  columns :: "string list"
  dtypes :: "string list"

definition chtype :: "string \<Rightarrow> string option" where
  "chtype x =
     (if x = ''float64'' then Some ''double''
      else if x = ''int64'' then Some ''int''
      else if x = ''O'' then Some ''text''
      else None)"

definition chname :: "string \<Rightarrow> py_error + string" where
  \<comment> \<open>\<open>x[-1]\<close> raises \<open>IndexError\<close> on the empty string\<close>
  "chname x =
     (if x = [] then Inl IndexError
      else if last x = CHR ''*'' then Inr (butlast x) else Inr x)"

definition primary_mark :: "string \<Rightarrow> py_error + string" where
  \<comment> \<open>\<open>'PRIMARY KEY' if x[-1] == '*' else ''\<close>\<close>
  "primary_mark x =
     (if x = [] then Inl IndexError
      else Inr (if last x = CHR ''*'' then ''PRIMARY KEY'' else []))"

fun map_err :: "('a \<Rightarrow> 'e + 'b) \<Rightarrow> 'a list \<Rightarrow> 'e + 'b list" where
  \<comment> \<open>a comprehension or \<open>map\<close> whose function may raise: the first exception ends it\<close>
  "map_err f [] = Inr []"
| "map_err f (x # xs) =
     (case f x of
        Inl e \<Rightarrow> Inl e
      | Inr y \<Rightarrow> (case map_err f xs of Inl e \<Rightarrow> Inl e | Inr ys \<Rightarrow> Inr (y # ys)))"

definition cols :: "dataframe \<Rightarrow> py_error + (string \<times> string option \<times> string) list" where
  "cols df =
     (let c = columns df; t = map chtype (dtypes df) in
      case map_err primary_mark c of
        Inl e \<Rightarrow> Inl e
      | Inr p \<Rightarrow>
          (case map_err chname c of
             Inl e \<Rightarrow> Inl e
           | Inr c' \<Rightarrow>
               (case index_name df of
                  None \<Rightarrow> Inl TypeError
                | Some nm \<Rightarrow>
                    (case chname nm of
                       Inl e \<Rightarrow> Inl e
                     | Inr i \<Rightarrow>
                         Inr (zip (i # c')
                               (zip (chtype (index_dtype df) # t) (''PRIMARY KEY'' # p)))))))"

definition primary_keys :: "(string \<times> string option \<times> string) list \<Rightarrow> string list" where
  \<comment> \<open>\<open>pk = [c for c, t, p in ctp if p == 'PRIMARY KEY']\<close> of \<open>to_access\<close>\<close>
  "primary_keys ctp = map fst (filter (\<lambda>(c, t, p). p = ''PRIMARY KEY'') ctp)"

definition strip_star :: "string \<Rightarrow> string" where
  \<comment> \<open>the name \<open>chname\<close> returns for a non-empty name\<close>
  "strip_star x = (if last x = CHR ''*'' then butlast x else x)"

section \<open>Loading rows\<close>

text \<open>
  The insertion loop of \<open>to_access\<close>. A row of \<open>df.itertuples()\<close> is the index value
  followed by the column values. The store is an external collaborator,
  reached through \<open>cursor.execute\<close> and \<open>conn.commit\<close>: the loop takes it as the function
  \<open>exec\<close> from the stored state and the formatted row to the new state or the exception
  raised. Only \<open>IntegrityError\<close> is caught. The value formatting \<open>_chformat\<close> and the
  rendering of \<open>%s\<close> are the parameters \<open>fmt\<close> and \<open>str\<close>.
\<close>

datatype db_error = IntegrityError | OtherDatabaseError

definition not_inserted :: "('v \<Rightarrow> string) \<Rightarrow> string \<Rightarrow> 'v \<times> 'v list \<Rightarrow> string" where
  \<comment> \<open>\<open>'%s = %s already exists. Not inserted' % (c[0], row[0])\<close>\<close>
  "not_inserted str c0 row = c0 @ '' = '' @ str (fst row) @ '' already exists. Not inserted''"

definition format_row :: "('v \<Rightarrow> 'w) \<Rightarrow> 'v \<times> 'v list \<Rightarrow> 'w list" where
  \<comment> \<open>\<open>tuple(map(_chformat, row))\<close>\<close>
  "format_row fmt row = map fmt (fst row # snd row)"

fun to_access_rows ::
  "('s \<Rightarrow> 'w list \<Rightarrow> db_error + 's) \<Rightarrow> ('v \<Rightarrow> 'w) \<Rightarrow> ('v \<Rightarrow> string) \<Rightarrow> string
     \<Rightarrow> ('v \<times> 'v list) list \<Rightarrow> 's \<times> string list \<Rightarrow> db_error + 's \<times> string list" where
  "to_access_rows exec fmt str c0 [] (db, out) = Inr (db, out)"
| "to_access_rows exec fmt str c0 (row # rows) (db, out) =
     (case exec db (format_row fmt row) of
        Inr db' \<Rightarrow> to_access_rows exec fmt str c0 rows (db', out)
      | Inl IntegrityError \<Rightarrow>
          to_access_rows exec fmt str c0 rows (db, out @ [not_inserted str c0 row])
      | Inl e \<Rightarrow> Inl e)"

text \<open>
  The contract of a table with a primary key, as the store gives it: a row whose key is
  already stored is refused with \<open>IntegrityError\<close> and the table stays as it was; any
  other row is stored.
\<close>

definition keyed_insert ::
  "('w list \<Rightarrow> 'k) \<Rightarrow> 'w list list \<Rightarrow> 'w list \<Rightarrow> db_error + 'w list list" where
  "keyed_insert key tbl r =
     (if key r \<in> set (map key tbl) then Inl IntegrityError else Inr (tbl @ [r]))"

section \<open>Properties of the pattern matcher\<close>

text \<open>
  An item whose class the rest of the pattern refuses as a first character takes the
  whole run of its class: giving characters back cannot help.
\<close>

lemma try_len_unfold:
  "try_len k lo s n =
     (if n < lo then None
      else case k (drop n s) of
             Some caps \<Rightarrow> Some (take n s, caps)
           | None \<Rightarrow> (if n = 0 then None else try_len k lo s (n - 1)))"
  by (cases n) (auto split: option.splits)

lemma try_len_all_fail:
  "(\<And>m. m \<le> n \<Longrightarrow> k (drop m s) = None) \<Longrightarrow> try_len k lo s n = None"
proof (induction n)
  case 0
  from 0 [of 0] show ?case by simp
next
  case (Suc n)
  have "k (drop (Suc n) s) = None" using Suc.prems [of "Suc n"] by simp
  moreover have "try_len k lo s n = None"
    by (rule Suc.IH) (simp add: Suc.prems)
  ultimately show ?case by simp
qed

lemma try_len_greedy:
  assumes "\<And>m. m < n \<Longrightarrow> k (drop m s) = None"
  shows "try_len k lo s n =
     (if n < lo then None
      else case k (drop n s) of Some caps \<Rightarrow> Some (take n s, caps) | None \<Rightarrow> None)"
proof (cases n)
  case 0
  then show ?thesis by (simp split: option.splits)
next
  case (Suc j)
  have "try_len k lo s j = None"
    by (rule try_len_all_fail) (simp add: assms Suc)
  then show ?thesis using Suc by (simp split: option.splits)
qed

lemma drop_in_run:
  assumes "m < length (takeWhile cls s)"
  shows "\<exists>c s'. drop m s = c # s' \<and> cls c"
proof -
  have len: "m < length s"
    using assms length_takeWhile_le [of cls s] by (meson less_le_trans)
  have "takeWhile cls s ! m \<in> set (takeWhile cls s)" using assms by simp
  then have "cls (takeWhile cls s ! m)" by (rule set_takeWhileD[THEN conjunct2])
  then have "cls (s ! m)" using assms by (simp add: takeWhile_nth)
  moreover have "drop m s = s ! m # drop (Suc m) s" using len by (simp add: Cons_nth_drop_Suc)
  ultimately show ?thesis by blast
qed

lemma match_run:
  assumes q: "q = Star \<or> q = Plus"
    and rej: "\<And>c s'. cls c \<Longrightarrow> match_items rest (c # s') = None"
  shows "match_items (Item cls q g # rest) s =
     (if length (takeWhile cls s) < qmin q then None
      else case match_items rest (dropWhile cls s) of
             None \<Rightarrow> None
           | Some caps \<Rightarrow> Some (if g then takeWhile cls s # caps else caps))"
proof -
  let ?n = "length (takeWhile cls s)"
  have cap: "qcap q ?n = ?n" using q by auto
  have below: "\<And>m. m < ?n \<Longrightarrow> match_items rest (drop m s) = None"
    using drop_in_run [of _ cls s] rej by fastforce
  have tk: "take ?n s = takeWhile cls s" by (simp add: takeWhile_eq_take [symmetric])
  have dr: "drop ?n s = dropWhile cls s" by (simp add: dropWhile_eq_drop [symmetric])
  have "try_len (match_items rest) (qmin q) s ?n =
     (if ?n < qmin q then None
      else case match_items rest (drop ?n s) of
             Some caps \<Rightarrow> Some (take ?n s, caps) | None \<Rightarrow> None)"
    by (rule try_len_greedy) (rule below)
  then show ?thesis
    by (simp add: cap tk dr split: option.splits)
qed

lemma match_last_run:
  assumes q: "q = Star \<or> q = Plus"
  shows "match_items [Item cls q g] s =
     (if length (takeWhile cls s) < qmin q then None
      else Some (if g then [takeWhile cls s] else []))"
proof -
  let ?n = "length (takeWhile cls s)"
  have cap: "qcap q ?n = ?n" using q by auto
  have tk: "take ?n s = takeWhile cls s" by (simp add: takeWhile_eq_take [symmetric])
  show ?thesis
    by (simp add: cap try_len_unfold [of _ _ _ ?n] tk)
qed

lemma match_refuses:
  assumes "\<not> cls c" and "0 < qmin q \<or> match_items rest (c # s) = None"
  shows "match_items (Item cls q g # rest) (c # s) = None"
  using assms by (cases q) (auto split: option.splits)

lemma alpha_not_sep: "is_alpha c \<Longrightarrow> \<not> is_sep c"
  by (auto simp: is_alpha_def is_sep_def lowercase_def uppercase_def)

lemma alpha_not_digit: "is_alpha c \<Longrightarrow> \<not> is_digit c"
  by (auto simp: is_alpha_def is_digit_def lowercase_def uppercase_def digits_def)

lemma sep_not_digit: "is_sep c \<Longrightarrow> \<not> is_digit c"
  by (auto simp: is_sep_def is_digit_def digits_def)

lemma digit_not_sep: "is_digit c \<Longrightarrow> \<not> is_sep c"
  by (auto simp: is_sep_def is_digit_def digits_def)

lemma digit_not_alpha: "is_digit c \<Longrightarrow> \<not> is_alpha c"
  using alpha_not_digit by blast

lemma sep_not_alpha: "is_sep c \<Longrightarrow> \<not> is_alpha c"
  using alpha_not_sep by blast

lemma match_digits_last:
  "match_items [Item is_digit Plus True] s =
     (if takeWhile is_digit s = [] then None else Some [takeWhile is_digit s])"
  by (simp add: match_last_run del: match_items.simps)

lemma match_sep_digits:
  "match_items [Item is_sep Plus False, Item is_digit Plus True] s =
     (if takeWhile is_sep s = [] \<or> takeWhile is_digit (dropWhile is_sep s) = [] then None
      else Some [takeWhile is_digit (dropWhile is_sep s)])"
proof -
  have rej: "\<And>c s'. is_sep c \<Longrightarrow> match_items [Item is_digit Plus True] (c # s') = None"
    by (rule match_refuses) (simp_all add: sep_not_digit)
  show ?thesis
    by (simp add: match_run [OF _ rej] match_digits_last del: match_items.simps)
qed

lemma match_parea: "match_items parea s = scan_area s"
proof -
  have rej: "\<And>c s'. is_alpha c \<Longrightarrow>
      match_items [Item is_sep Plus False, Item is_digit Plus True] (c # s') = None"
    by (rule match_refuses) (simp_all add: alpha_not_sep)
  show ?thesis
    unfolding parea_def scan_area_def
    by (simp add: match_run [OF _ rej] match_sep_digits Let_def del: match_items.simps)
qed

lemma match_tail3:
  "match_items [Item is_digit Plus True, Item is_sep Plus False, Item is_digit Plus True] s =
     (let y = takeWhile is_digit s; r3 = dropWhile is_digit s;
          p = takeWhile is_sep r3; r4 = dropWhile is_sep r3;
          n = takeWhile is_digit r4
      in if y = [] \<or> p = [] \<or> n = [] then None else Some [y, n])"
proof -
  have rej: "\<And>c s'. is_digit c \<Longrightarrow>
      match_items [Item is_sep Plus False, Item is_digit Plus True] (c # s') = None"
    by (rule match_refuses) (simp_all add: digit_not_sep)
  show ?thesis
    by (simp add: match_run [OF _ rej] match_sep_digits Let_def del: match_items.simps)
qed

lemma match_tail4:
  "match_items [Item is_sep Star False, Item is_digit Plus True,
                Item is_sep Plus False, Item is_digit Plus True] s =
     match_items [Item is_digit Plus True, Item is_sep Plus False, Item is_digit Plus True]
       (dropWhile is_sep s)"
proof -
  have rej: "\<And>c s'. is_sep c \<Longrightarrow>
      match_items [Item is_digit Plus True, Item is_sep Plus False, Item is_digit Plus True]
        (c # s') = None"
    by (rule match_refuses) (simp_all add: sep_not_digit)
  show ?thesis
    by (simp add: match_run [OF _ rej] del: match_items.simps split: option.splits)
qed

lemma match_pline: "match_items pline s = scan_line s"
proof -
  have rej3: "\<And>c s'. is_alpha c \<Longrightarrow>
      match_items [Item is_digit Plus True, Item is_sep Plus False, Item is_digit Plus True]
        (c # s') = None"
    by (rule match_refuses) (simp_all add: alpha_not_digit)
  have rej: "\<And>c s'. is_alpha c \<Longrightarrow>
      match_items [Item is_sep Star False, Item is_digit Plus True,
                   Item is_sep Plus False, Item is_digit Plus True] (c # s') = None"
    by (rule match_refuses) (simp_all add: alpha_not_sep rej3 del: match_items.simps)
  show ?thesis
    unfolding pline_def scan_line_def
    by (simp add: match_run [OF _ rej] match_tail4 match_tail3 Let_def del: match_items.simps)
qed

lemma span_run:
  assumes "\<forall>x\<in>set xs. P x" and "ys = [] \<or> \<not> P (hd ys)"
  shows "takeWhile P (xs @ ys) = xs" and "dropWhile P (xs @ ys) = ys"
proof -
  have t: "takeWhile P ys = []" using assms(2) by (cases ys) auto
  have d: "dropWhile P ys = ys" using assms(2) by (cases ys) auto
  show "takeWhile P (xs @ ys) = xs" using assms(1) t by (simp add: takeWhile_append2)
  show "dropWhile P (xs @ ys) = ys" using assms(1) d by (simp add: dropWhile_append2)
qed

lemma scan_line_build:
  assumes a: "a \<noteq> []" "\<forall>c\<in>set a. is_alpha c"
    and p1: "\<forall>c\<in>set p1. is_sep c"
    and y: "y \<noteq> []" "\<forall>c\<in>set y. is_digit c"
    and p2: "p2 \<noteq> []" "\<forall>c\<in>set p2. is_sep c"
    and n: "n \<noteq> []" "\<forall>c\<in>set n. is_digit c"
    and e: "e = [] \<or> \<not> is_digit (hd e)"
  shows "scan_line (a @ p1 @ y @ p2 @ n @ e) = Some [a, y, n]"
proof -
  have hy: "is_digit (hd y)" using y by (cases y) auto
  have hn: "is_digit (hd n)" using n by (cases n) auto
  have hp2: "is_sep (hd p2)" using p2 by (cases p2) auto
  have b1: "p1 @ y @ p2 @ n @ e = [] \<or> \<not> is_alpha (hd (p1 @ y @ p2 @ n @ e))"
    using p1 y hy by (cases p1) (auto simp: sep_not_alpha digit_not_alpha)
  have b2: "y @ p2 @ n @ e = [] \<or> \<not> is_sep (hd (y @ p2 @ n @ e))"
    using y hy by (auto simp: digit_not_sep)
  have b3: "p2 @ n @ e = [] \<or> \<not> is_digit (hd (p2 @ n @ e))"
    using p2 hp2 by (auto simp: sep_not_digit)
  have b4: "n @ e = [] \<or> \<not> is_sep (hd (n @ e))"
    using n hn by (auto simp: digit_not_sep)
  show ?thesis
    unfolding scan_line_def Let_def
    using a y p2 n
    by (simp add: span_run [OF a(2) b1] span_run [OF p1 b2] span_run [OF y(2) b3]
        span_run [OF p2(2) b4] span_run [OF n(2) e])
qed

lemma scan_line_parts:
  assumes "scan_line s = Some g"
  shows "\<exists>a p1 y p2 n e. g = [a, y, n] \<and> s = a @ p1 @ y @ p2 @ n @ e
      \<and> a \<noteq> [] \<and> (\<forall>c\<in>set a. is_alpha c) \<and> (\<forall>c\<in>set p1. is_sep c)
      \<and> y \<noteq> [] \<and> (\<forall>c\<in>set y. is_digit c)
      \<and> p2 \<noteq> [] \<and> (\<forall>c\<in>set p2. is_sep c)
      \<and> n \<noteq> [] \<and> (\<forall>c\<in>set n. is_digit c)
      \<and> (e = [] \<or> \<not> is_digit (hd e))"
proof -
  define a where "a = takeWhile is_alpha s"
  define r1 where "r1 = dropWhile is_alpha s"
  define p1 where "p1 = takeWhile is_sep r1"
  define r2 where "r2 = dropWhile is_sep r1"
  define y where "y = takeWhile is_digit r2"
  define r3 where "r3 = dropWhile is_digit r2"
  define p2 where "p2 = takeWhile is_sep r3"
  define r4 where "r4 = dropWhile is_sep r3"
  define n where "n = takeWhile is_digit r4"
  define e where "e = dropWhile is_digit r4"
  have s: "s = a @ p1 @ y @ p2 @ n @ e"
    by (simp add: a_def r1_def p1_def r2_def y_def r3_def p2_def r4_def n_def e_def)
  have g: "g = [a, y, n] \<and> a \<noteq> [] \<and> y \<noteq> [] \<and> p2 \<noteq> [] \<and> n \<noteq> []"
    using assms unfolding scan_line_def Let_def
    by (simp add: a_def r1_def p1_def r2_def y_def r3_def p2_def r4_def n_def e_def
        split: if_splits) 
  have cls: "(\<forall>c\<in>set a. is_alpha c) \<and> (\<forall>c\<in>set p1. is_sep c) \<and> (\<forall>c\<in>set y. is_digit c)
      \<and> (\<forall>c\<in>set p2. is_sep c) \<and> (\<forall>c\<in>set n. is_digit c)"
    by (auto simp: a_def p1_def y_def p2_def n_def dest: set_takeWhileD)
  have e: "e = [] \<or> \<not> is_digit (hd e)"
    unfolding e_def using hd_dropWhile [of is_digit r4] by blast
  show ?thesis using s g cls e by blast
qed

lemma upper_char_alpha: "is_alpha c \<Longrightarrow> upper_char c \<in> set uppercase"
  by (auto simp: is_alpha_def upper_char_def lowercase_def uppercase_def)

lemma upper_char_fix: "c \<notin> set lowercase \<Longrightarrow> upper_char c = c"
  by (auto simp: upper_char_def lowercase_def uppercase_def)

lemma uppercase_not_lowercase: "c \<in> set uppercase \<Longrightarrow> c \<notin> set lowercase"
  by (auto simp: lowercase_def uppercase_def)

lemma uppercase_alpha: "c \<in> set uppercase \<Longrightarrow> is_alpha c"
  by (auto simp: is_alpha_def)

lemma digit_not_lowercase: "is_digit c \<Longrightarrow> c \<notin> set lowercase"
  by (auto simp: is_digit_def digits_def lowercase_def)

lemma upper_fix: "\<forall>c\<in>set s. c \<notin> set lowercase \<Longrightarrow> upper s = s"
  by (induction s) (simp_all add: upper_def upper_char_fix)

lemma upper_digits: "\<forall>c\<in>set s. is_digit c \<Longrightarrow> upper s = s"
  by (rule upper_fix) (simp add: digit_not_lowercase)

lemma upper_append: "upper (xs @ ys) = upper xs @ upper ys"
  by (simp add: upper_def)

lemma upper_dash: "upper ''-'' = ''-''"
  by (simp add: upper_def upper_char_def lowercase_def uppercase_def)

lemma upper_alpha: "\<forall>c\<in>set s. is_alpha c \<Longrightarrow> \<forall>c\<in>set (upper s). c \<in> set uppercase"
  by (simp add: upper_def upper_char_alpha)

lemma upper_idem_alpha: "\<forall>c\<in>set s. is_alpha c \<Longrightarrow> upper (upper s) = upper s"
  by (rule upper_fix) (use upper_alpha uppercase_not_lowercase in blast)

lemma chano_digits: "\<forall>c\<in>set y. is_digit c \<Longrightarrow> \<forall>c\<in>set (chano y). is_digit c"
  by (auto simp: chano_def is_digit_def digits_def)

lemma chano_nonempty: "y \<noteq> [] \<Longrightarrow> chano y \<noteq> []"
  by (simp add: chano_def)

lemma chano_idem: "chano (chano y) = chano y"
  by (simp add: chano_def)

lemma chano_len4: "length (chano y) = 4 \<longleftrightarrow> length y = 2 \<or> length y = 4"
  by (simp add: chano_def)

lemma scan_area_build:
  assumes a: "a \<noteq> []" "\<forall>c\<in>set a. is_alpha c"
    and p: "p \<noteq> []" "\<forall>c\<in>set p. is_sep c"
    and y: "y \<noteq> []" "\<forall>c\<in>set y. is_digit c"
    and e: "e = [] \<or> \<not> is_digit (hd e)"
  shows "scan_area (a @ p @ y @ e) = Some [a, y]"
proof -
  have hy: "is_digit (hd y)" using y by (cases y) auto
  have hp: "is_sep (hd p)" using p by (cases p) auto
  have b1: "p @ y @ e = [] \<or> \<not> is_alpha (hd (p @ y @ e))"
    using p hp by (auto simp: sep_not_alpha)
  have b2: "y @ e = [] \<or> \<not> is_sep (hd (y @ e))"
    using y hy by (auto simp: digit_not_sep)
  show ?thesis
    unfolding scan_area_def Let_def
    using a p y
    by (simp add: span_run [OF a(2) b1] span_run [OF p(2) b2] span_run [OF y(2) e])
qed

lemma scan_area_parts:
  assumes "scan_area s = Some g"
  shows "\<exists>a p y e. g = [a, y] \<and> s = a @ p @ y @ e
      \<and> a \<noteq> [] \<and> (\<forall>c\<in>set a. is_alpha c)
      \<and> p \<noteq> [] \<and> (\<forall>c\<in>set p. is_sep c)
      \<and> y \<noteq> [] \<and> (\<forall>c\<in>set y. is_digit c)
      \<and> (e = [] \<or> \<not> is_digit (hd e))"
proof -
  define a where "a = takeWhile is_alpha s"
  define r1 where "r1 = dropWhile is_alpha s"
  define p where "p = takeWhile is_sep r1"
  define r2 where "r2 = dropWhile is_sep r1"
  define y where "y = takeWhile is_digit r2"
  define e where "e = dropWhile is_digit r2"
  have s: "s = a @ p @ y @ e"
    by (simp add: a_def r1_def p_def r2_def y_def e_def)
  have g: "g = [a, y] \<and> a \<noteq> [] \<and> p \<noteq> [] \<and> y \<noteq> []"
    using assms unfolding scan_area_def Let_def
    by (simp add: a_def r1_def p_def r2_def y_def e_def split: if_splits)
  have cls: "(\<forall>c\<in>set a. is_alpha c) \<and> (\<forall>c\<in>set p. is_sep c) \<and> (\<forall>c\<in>set y. is_digit c)"
    by (auto simp: a_def p_def y_def dest: set_takeWhileD)
  have e: "e = [] \<or> \<not> is_digit (hd e)"
    unfolding e_def using hd_dropWhile [of is_digit r2] by blast
  show ?thesis using s g cls e by blast
qed

lemma upper_line:
  assumes "\<forall>c\<in>set y. is_digit c" and "\<forall>c\<in>set n. is_digit c"
  shows "upper (a @ ''-'' @ chano y @ ''-'' @ n) = upper a @ ''-'' @ chano y @ ''-'' @ n"
  using assms upper_dash
  by (simp only: upper_append upper_digits [OF chano_digits] upper_digits)

lemma upper_area:
  assumes "\<forall>c\<in>set y. is_digit c"
  shows "upper (a @ ''-'' @ y) = upper a @ ''-'' @ y"
  using assms upper_dash
  by (simp only: upper_append upper_digits)

lemma normNameLine_build:
  assumes a: "a \<noteq> []" "\<forall>c\<in>set a. is_alpha c"
    and p1: "\<forall>c\<in>set p1. is_sep c"
    and y: "y \<noteq> []" "\<forall>c\<in>set y. is_digit c"
    and p2: "p2 \<noteq> []" "\<forall>c\<in>set p2. is_sep c"
    and n: "n \<noteq> []" "\<forall>c\<in>set n. is_digit c"
    and e: "e = [] \<or> \<not> is_digit (hd e)"
  shows "normNameLine (a @ p1 @ y @ p2 @ n @ e) = Some (upper a @ ''-'' @ chano y @ ''-'' @ n)"
proof -
  have "match_items pline (a @ p1 @ y @ p2 @ n @ e) = Some [a, y, n]"
    unfolding match_pline by (rule scan_line_build) (fact assms)+
  then show ?thesis
    unfolding normNameLine_def using upper_line [OF y(2) n(2)] by simp
qed

lemma normNameLine_parts:
  assumes "normNameLine x = Some r"
  shows "\<exists>a p1 y p2 n e. x = a @ p1 @ y @ p2 @ n @ e
      \<and> r = upper a @ ''-'' @ chano y @ ''-'' @ n
      \<and> a \<noteq> [] \<and> (\<forall>c\<in>set a. is_alpha c) \<and> (\<forall>c\<in>set p1. is_sep c)
      \<and> y \<noteq> [] \<and> (\<forall>c\<in>set y. is_digit c)
      \<and> p2 \<noteq> [] \<and> (\<forall>c\<in>set p2. is_sep c)
      \<and> n \<noteq> [] \<and> (\<forall>c\<in>set n. is_digit c)
      \<and> (e = [] \<or> \<not> is_digit (hd e))"
proof -
  from assms obtain g where g: "scan_line x = Some g"
    unfolding normNameLine_def match_pline by (cases "scan_line x") auto
  from scan_line_parts [OF g] obtain a p1 y p2 n e where
    parts: "g = [a, y, n]" "x = a @ p1 @ y @ p2 @ n @ e"
      "a \<noteq> []" "\<forall>c\<in>set a. is_alpha c" "\<forall>c\<in>set p1. is_sep c"
      "y \<noteq> []" "\<forall>c\<in>set y. is_digit c" "p2 \<noteq> []" "\<forall>c\<in>set p2. is_sep c"
      "n \<noteq> []" "\<forall>c\<in>set n. is_digit c" "e = [] \<or> \<not> is_digit (hd e)"
    by blast
  have "normNameLine x = Some (upper a @ ''-'' @ chano y @ ''-'' @ n)"
    unfolding parts(2) by (rule normNameLine_build) (fact parts)+
  with assms have "r = upper a @ ''-'' @ chano y @ ''-'' @ n" by simp
  with parts show ?thesis by blast
qed

lemma normNameArea_build:
  assumes a: "a \<noteq> []" "\<forall>c\<in>set a. is_alpha c"
    and p: "p \<noteq> []" "\<forall>c\<in>set p. is_sep c"
    and y: "y \<noteq> []" "\<forall>c\<in>set y. is_digit c"
    and e: "e = [] \<or> \<not> is_digit (hd e)"
  shows "normNameArea (a @ p @ y @ e) = Some (upper a @ ''-'' @ y)"
proof -
  have "match_items parea (a @ p @ y @ e) = Some [a, y]"
    unfolding match_parea by (rule scan_area_build) (fact assms)+
  then show ?thesis
    unfolding normNameArea_def using upper_area [OF y(2)] by simp
qed

lemma normNameArea_parts:
  assumes "normNameArea x = Some r"
  shows "\<exists>a p y e. x = a @ p @ y @ e
      \<and> r = upper a @ ''-'' @ y
      \<and> a \<noteq> [] \<and> (\<forall>c\<in>set a. is_alpha c)
      \<and> p \<noteq> [] \<and> (\<forall>c\<in>set p. is_sep c)
      \<and> y \<noteq> [] \<and> (\<forall>c\<in>set y. is_digit c)
      \<and> (e = [] \<or> \<not> is_digit (hd e))"
proof -
  from assms obtain g where g: "scan_area x = Some g"
    unfolding normNameArea_def match_parea by (cases "scan_area x") auto
  from scan_area_parts [OF g] obtain a p y e where
    parts: "g = [a, y]" "x = a @ p @ y @ e"
      "a \<noteq> []" "\<forall>c\<in>set a. is_alpha c" "p \<noteq> []" "\<forall>c\<in>set p. is_sep c"
      "y \<noteq> []" "\<forall>c\<in>set y. is_digit c" "e = [] \<or> \<not> is_digit (hd e)"
    by blast
  have "normNameArea x = Some (upper a @ ''-'' @ y)"
    unfolding parts(2) by (rule normNameArea_build) (fact parts)+
  with assms have "r = upper a @ ''-'' @ y" by simp
  with parts show ?thesis by blast
qed

lemma split_on_none: "d \<notin> set xs \<Longrightarrow> split_on d xs = [xs]"
  by (induction xs) auto

lemma split_on_first: "d \<notin> set xs \<Longrightarrow> split_on d (xs @ d # ys) = xs # split_on d ys"
  by (induction xs) (auto split: list.splits)

lemma dash_not_upper: "c \<in> set uppercase \<Longrightarrow> c \<noteq> CHR ''-''"
  by (auto simp: uppercase_def)

lemma dash_not_digit: "is_digit c \<Longrightarrow> c \<noteq> CHR ''-''"
  by (auto simp: is_digit_def digits_def)

lemma split_line:
  assumes "\<forall>c\<in>set a. c \<in> set uppercase" "\<forall>c\<in>set y. is_digit c" "\<forall>c\<in>set n. is_digit c"
  shows "split_on CHR ''-'' (a @ ''-'' @ y @ ''-'' @ n) = [a, y, n]"
proof -
  have a: "CHR ''-'' \<notin> set a" using assms(1) dash_not_upper by blast
  have y: "CHR ''-'' \<notin> set y" using assms(2) dash_not_digit by blast
  have n: "CHR ''-'' \<notin> set n" using assms(3) dash_not_digit by blast
  show ?thesis by (simp add: split_on_first [OF a] split_on_first [OF y] split_on_none [OF n])
qed

lemma split_area:
  assumes "\<forall>c\<in>set a. c \<in> set uppercase" "\<forall>c\<in>set y. is_digit c"
  shows "split_on CHR ''-'' (a @ ''-'' @ y) = [a, y]"
proof -
  have a: "CHR ''-'' \<notin> set a" using assms(1) dash_not_upper by blast
  have y: "CHR ''-'' \<notin> set y" using assms(2) dash_not_digit by blast
  show ?thesis by (simp add: split_on_first [OF a] split_on_none [OF y])
qed

lemma upper_result_line:
  assumes "\<forall>c\<in>set a. is_alpha c" "\<forall>c\<in>set y. is_digit c" "\<forall>c\<in>set n. is_digit c"
  shows "upper (upper a @ ''-'' @ y @ ''-'' @ n) = upper a @ ''-'' @ y @ ''-'' @ n"
  using upper_dash
  by (simp only: upper_append upper_idem_alpha [OF assms(1)] upper_digits [OF assms(2)]
      upper_digits [OF assms(3)])

lemma upper_result_area:
  assumes "\<forall>c\<in>set a. is_alpha c" "\<forall>c\<in>set y. is_digit c"
  shows "upper (upper a @ ''-'' @ y) = upper a @ ''-'' @ y"
  using upper_dash
  by (simp only: upper_append upper_idem_alpha [OF assms(1)] upper_digits [OF assms(2)])

lemma upper_nonempty: "a \<noteq> [] \<Longrightarrow> upper a \<noteq> []"
  by (simp add: upper_def)

section \<open>Claims about name normalization\<close>

lemma run_then_rest:
  "\<exists>d e'. e = d @ e' \<and> (\<forall>c\<in>set d. P c) \<and> (e' = [] \<or> \<not> P (hd e'))
      \<and> ((e = [] \<or> \<not> P (hd e)) \<longrightarrow> d = [])"
proof -
  have 1: "e = takeWhile P e @ dropWhile P e" by simp
  have 2: "\<forall>c\<in>set (takeWhile P e). P c" by (auto dest: set_takeWhileD)
  have 3: "dropWhile P e = [] \<or> \<not> P (hd (dropWhile P e))"
    using hd_dropWhile [of P e] by blast
  have 4: "(e = [] \<or> \<not> P (hd e)) \<longrightarrow> takeWhile P e = []"
    by (simp add: takeWhile_eq_Nil_iff)
  from 1 2 3 4 show ?thesis by blast
qed

text \<open>
  Claim C1. Area normalization is said to expand a two-digit year by prefixing \<open>19\<close>, so
  that \<open>normNameArea("xyz-99")\<close> would be \<open>"XYZ-1999"\<close>. The source's \<open>normNameArea\<close>
  joins the captured year as it is and never calls \<open>_chano\<close>, which \<open>normNameLine\<close>
  does: on \<open>"xyz-99"\<close> the code returns \<open>"XYZ-99"\<close>.
\<close>

theorem normNameArea_no_expansion:
  "normNameArea ''xyz-99'' = Some ''XYZ-99'' \<and> normNameArea ''xyz-99'' \<noteq> Some ''XYZ-1999''"
  by code_simp

text \<open>
  Claim C2, as amended. Whenever \<open>normNameLine\<close> succeeds, its result is upper-case and
  has the shape \<open>NAME-YEAR-NUMBER\<close>: a non-empty run of upper-case letters and two
  non-empty runs of digits, joined by single dashes. The year has exactly four digits
  exactly when the year group of the input has two or four digits. Whenever
  \<open>normNameArea\<close> succeeds, its result is upper-case and has the shape \<open>NAME-YEAR\<close>
  with a non-empty run of digits as the year.
\<close>

theorem normName_form:
  "(normNameLine x = Some r \<longrightarrow>
      upper r = r \<and> line_form r \<and>
      (\<exists>a y n. match_items pline x = Some [a, y, n] \<and>
         (canonical_line r \<longleftrightarrow> length y = 2 \<or> length y = 4))) \<and>
   (normNameArea x = Some r \<longrightarrow> upper r = r \<and> area_form r)"
proof (intro conjI impI)
  assume h: "normNameLine x = Some r"
  from normNameLine_parts [OF h] obtain a p1 y p2 n e where
    p: "x = a @ p1 @ y @ p2 @ n @ e" "r = upper a @ ''-'' @ chano y @ ''-'' @ n"
      "a \<noteq> []" "\<forall>c\<in>set a. is_alpha c" "\<forall>c\<in>set p1. is_sep c"
      "y \<noteq> []" "\<forall>c\<in>set y. is_digit c" "p2 \<noteq> []" "\<forall>c\<in>set p2. is_sep c"
      "n \<noteq> []" "\<forall>c\<in>set n. is_digit c" "e = [] \<or> \<not> is_digit (hd e)"
    by blast
  have cy: "\<forall>c\<in>set (chano y). is_digit c" using p(7) by (rule chano_digits)
  show up: "upper r = r"
    unfolding p(2) using p(4) cy p(11) by (rule upper_result_line)
  have sp: "split_on CHR ''-'' r = [upper a, chano y, n]"
    unfolding p(2) using upper_alpha [OF p(4)] cy p(11) by (rule split_line)
  have nm: "is_upper_name (upper a)"
    using upper_alpha [OF p(4)] upper_nonempty [OF p(3)]
    by (simp add: is_upper_name_def list_all_iff)
  have yr: "is_number (chano y)"
    using cy chano_nonempty [OF p(6)] by (simp add: is_number_def list_all_iff)
  have nu: "is_number n"
    using p(10,11) by (simp add: is_number_def list_all_iff)
  show "line_form r"
    by (simp add: line_form_def sp nm yr nu)
  have m: "match_items pline x = Some [a, y, n]"
    unfolding match_pline p(1) by (rule scan_line_build) (fact p)+
  have "canonical_line r \<longleftrightarrow> length y = 2 \<or> length y = 4"
    by (simp add: canonical_line_def up sp nm yr nu chano_len4)
  with m show "\<exists>a y n. match_items pline x = Some [a, y, n] \<and>
         (canonical_line r \<longleftrightarrow> length y = 2 \<or> length y = 4)"
    by blast
next
  assume h: "normNameArea x = Some r"
  from normNameArea_parts [OF h] obtain a p y e where
    p: "x = a @ p @ y @ e" "r = upper a @ ''-'' @ y"
      "a \<noteq> []" "\<forall>c\<in>set a. is_alpha c" "p \<noteq> []" "\<forall>c\<in>set p. is_sep c"
      "y \<noteq> []" "\<forall>c\<in>set y. is_digit c" "e = [] \<or> \<not> is_digit (hd e)"
    by blast
  show "upper r = r"
    unfolding p(2) using p(4) p(8) by (rule upper_result_area)
  have sp: "split_on CHR ''-'' r = [upper a, y]"
    unfolding p(2) using upper_alpha [OF p(4)] p(8) by (rule split_area)
  have nm: "is_upper_name (upper a)"
    using upper_alpha [OF p(4)] upper_nonempty [OF p(3)]
    by (simp add: is_upper_name_def list_all_iff)
  have yr: "is_number y"
    using p(7,8) by (simp add: is_number_def list_all_iff)
  show "area_form r"
    by (simp add: area_form_def sp nm yr)
qed

theorem normName_form_witness:
  "normNameLine ''abc_87_1234'' = Some ''ABC-1987-1234'' \<and>
   upper ''ABC-1987-1234'' = ''ABC-1987-1234'' \<and> line_form ''ABC-1987-1234'' \<and>
   normNameArea ''xyz-1999'' = Some ''XYZ-1999'' \<and> area_form ''XYZ-1999''"
proof -
  have l: "normNameLine ''abc_87_1234'' = Some ''ABC-1987-1234''" by code_simp
  have a: "normNameArea ''xyz-1999'' = Some ''XYZ-1999''" by code_simp
  from normName_form [of "''abc_87_1234''" "''ABC-1987-1234''"] l
  have 1: "upper ''ABC-1987-1234'' = ''ABC-1987-1234'' \<and> line_form ''ABC-1987-1234''" by blast
  from normName_form [of "''xyz-1999''" "''XYZ-1999''"] a
  have 2: "area_form ''XYZ-1999''" by blast
  from l a 1 2 show ?thesis by blast
qed

text \<open>
  Claim C2 as stated asks for a year of exactly four digits on every successful input.
  A year group of three digits passes through \<open>_chano\<close> unchanged.
\<close>

theorem year_not_four_digits_counterexample:
  "normNameLine ''abc_123_4'' = Some ''ABC-123-4'' \<and> \<not> canonical_line ''ABC-123-4''"
  by code_simp

text \<open>
  Claim C5. Line normalization expands a year of exactly two digits by prefixing \<open>19\<close>
  and leaves a year of four digits as it is: \<open>normNameLine("abc_87_1234")\<close> is
  \<open>"ABC-1987-1234"\<close>, and for every input made of letters, optional separators, a year,
  separators and a number, the year appears in the result with \<open>19\<close> in front when
  it has two digits and unchanged when it has four.
\<close>

theorem normNameLine_year:
  assumes "a \<noteq> []" "\<forall>c\<in>set a. is_alpha c"
    and "\<forall>c\<in>set p1. is_sep c"
    and "\<forall>c\<in>set y. is_digit c"
    and "p2 \<noteq> []" "\<forall>c\<in>set p2. is_sep c"
    and "n \<noteq> []" "\<forall>c\<in>set n. is_digit c"
    and "e = [] \<or> \<not> is_digit (hd e)"
  shows "normNameLine ''abc_87_1234'' = Some ''ABC-1987-1234'' \<and>
    (length y = 2 \<longrightarrow>
       normNameLine (a @ p1 @ y @ p2 @ n @ e) = Some (upper a @ ''-19'' @ y @ ''-'' @ n)) \<and>
    (length y = 4 \<longrightarrow>
       normNameLine (a @ p1 @ y @ p2 @ n @ e) = Some (upper a @ ''-'' @ y @ ''-'' @ n))"
proof (intro conjI impI)
  show "normNameLine ''abc_87_1234'' = Some ''ABC-1987-1234''" by code_simp
next
  assume l: "length y = 2"
  then have y: "y \<noteq> []" by auto
  have "normNameLine (a @ p1 @ y @ p2 @ n @ e) = Some (upper a @ ''-'' @ chano y @ ''-'' @ n)"
    using assms(1-3) y assms(4-9) by (rule normNameLine_build)
  then show "normNameLine (a @ p1 @ y @ p2 @ n @ e) = Some (upper a @ ''-19'' @ y @ ''-'' @ n)"
    using l by (simp add: chano_def)
next
  assume l: "length y = 4"
  then have y: "y \<noteq> []" by auto
  have "normNameLine (a @ p1 @ y @ p2 @ n @ e) = Some (upper a @ ''-'' @ chano y @ ''-'' @ n)"
    using assms(1-3) y assms(4-9) by (rule normNameLine_build)
  then show "normNameLine (a @ p1 @ y @ p2 @ n @ e) = Some (upper a @ ''-'' @ y @ ''-'' @ n)"
    using l by (simp add: chano_def)
qed

theorem normNameLine_year_witness:
  "normNameLine (''abc'' @ ''_'' @ ''87'' @ ''_'' @ ''1234'' @ '''') =
     Some (upper ''abc'' @ ''-19'' @ ''87'' @ ''-'' @ ''1234'') \<and>
   normNameLine (''Line'' @ '''' @ ''1987'' @ ''--'' @ ''5'' @ ''.sgy'') =
     Some (upper ''Line'' @ ''-'' @ ''1987'' @ ''-'' @ ''5'')"
proof -
  have 1: "normNameLine (''abc'' @ ''_'' @ ''87'' @ ''_'' @ ''1234'' @ '''') =
     Some (upper ''abc'' @ ''-19'' @ ''87'' @ ''-'' @ ''1234'')"
    using normNameLine_year [of "''abc''" "''_''" "''87''" "''_''" "''1234''" "''''"]
    by (simp add: is_alpha_def is_sep_def is_digit_def lowercase_def uppercase_def digits_def
        upper_def upper_char_def)
  have 2: "normNameLine (''Line'' @ '''' @ ''1987'' @ ''--'' @ ''5'' @ ''.sgy'') =
     Some (upper ''Line'' @ ''-'' @ ''1987'' @ ''-'' @ ''5'')"
    using normNameLine_year [of "''Line''" "''''" "''1987''" "''--''" "''5''" "''.sgy''"]
    by (simp add: is_alpha_def is_sep_def is_digit_def lowercase_def uppercase_def digits_def
        upper_def upper_char_def)
  from 1 2 show ?thesis by blast
qed

text \<open>
  Claim C6. Normalization is idempotent on its own output: when \<open>normNameLine\<close>
  (respectively \<open>normNameArea\<close>) succeeds on \<open>x\<close> with result \<open>y\<close>, it succeeds on
  \<open>y\<close> and returns \<open>y\<close> again.
\<close>

theorem normName_idempotent:
  "(normNameLine x = Some y \<longrightarrow> normNameLine y = Some y) \<and>
   (normNameArea x = Some y \<longrightarrow> normNameArea y = Some y)"
proof (intro conjI impI)
  assume h: "normNameLine x = Some y"
  from normNameLine_parts [OF h] obtain a p1 yr p2 n e where
    p: "x = a @ p1 @ yr @ p2 @ n @ e" "y = upper a @ ''-'' @ chano yr @ ''-'' @ n"
      "a \<noteq> []" "\<forall>c\<in>set a. is_alpha c" "\<forall>c\<in>set p1. is_sep c"
      "yr \<noteq> []" "\<forall>c\<in>set yr. is_digit c" "p2 \<noteq> []" "\<forall>c\<in>set p2. is_sep c"
      "n \<noteq> []" "\<forall>c\<in>set n. is_digit c" "e = [] \<or> \<not> is_digit (hd e)"
    by blast
  have ua: "\<forall>c\<in>set (upper a). is_alpha c"
    using upper_alpha [OF p(4)] uppercase_alpha by blast
  have sep: "\<forall>c\<in>set ''-''. is_sep c" by (simp add: is_sep_def)
  have "normNameLine (upper a @ ''-'' @ chano yr @ ''-'' @ n @ []) =
      Some (upper (upper a) @ ''-'' @ chano (chano yr) @ ''-'' @ n)"
    by (rule normNameLine_build)
      (simp_all add: upper_nonempty p ua sep chano_nonempty chano_digits [OF p(7)])
  then show "normNameLine y = Some y"
    by (simp add: p(2) chano_idem upper_idem_alpha [OF p(4)])
next
  assume h: "normNameArea x = Some y"
  from normNameArea_parts [OF h] obtain a p1 yr e where
    p: "x = a @ p1 @ yr @ e" "y = upper a @ ''-'' @ yr"
      "a \<noteq> []" "\<forall>c\<in>set a. is_alpha c" "p1 \<noteq> []" "\<forall>c\<in>set p1. is_sep c"
      "yr \<noteq> []" "\<forall>c\<in>set yr. is_digit c" "e = [] \<or> \<not> is_digit (hd e)"
    by blast
  have ua: "\<forall>c\<in>set (upper a). is_alpha c"
    using upper_alpha [OF p(4)] uppercase_alpha by blast
  have sep: "\<forall>c\<in>set ''-''. is_sep c" by (simp add: is_sep_def)
  have "normNameArea (upper a @ ''-'' @ yr @ []) = Some (upper (upper a) @ ''-'' @ yr)"
    by (rule normNameArea_build) (simp_all add: upper_nonempty p ua sep)
  then show "normNameArea y = Some y"
    by (simp add: p(2) upper_idem_alpha [OF p(4)])
qed

theorem normName_idempotent_witness:
  "normNameLine ''abc_87_1234'' = Some ''ABC-1987-1234'' \<and>
   normNameLine ''ABC-1987-1234'' = Some ''ABC-1987-1234'' \<and>
   normNameArea ''xyz-99'' = Some ''XYZ-99'' \<and>
   normNameArea ''XYZ-99'' = Some ''XYZ-99''"
proof -
  have l: "normNameLine ''abc_87_1234'' = Some ''ABC-1987-1234''" by code_simp
  have a: "normNameArea ''xyz-99'' = Some ''XYZ-99''" by code_simp
  from normName_idempotent [of "''abc_87_1234''" "''ABC-1987-1234''"] l
  have 1: "normNameLine ''ABC-1987-1234'' = Some ''ABC-1987-1234''" by blast
  from normName_idempotent [of "''xyz-99''" "''XYZ-99''"] a
  have 2: "normNameArea ''XYZ-99'' = Some ''XYZ-99''" by blast
  from l a 1 2 show ?thesis by blast
qed

text \<open>
  Claim C10. The patterns are anchored at the start of the input only. When a normalizer
  succeeds on \<open>p\<close>, it succeeds on \<open>p\<close> followed by any text \<open>e\<close>; the result is the
  one for \<open>p\<close>, extended by the digits at the start of \<open>e\<close> that continue the last
  digit group, and it is exactly the result for \<open>p\<close> when \<open>e\<close> does not start with
  a digit. In particular \<open>normNameLine("abc_87_1234xyz")\<close> is \<open>"ABC-1987-1234"\<close>.
\<close>

theorem normName_prefix:
  "normNameLine ''abc_87_1234xyz'' = Some ''ABC-1987-1234'' \<and>
   (normNameLine p = Some r \<longrightarrow>
      (\<exists>d. normNameLine (p @ e) = Some (r @ d) \<and> (\<forall>c\<in>set d. is_digit c) \<and>
           ((e = [] \<or> \<not> is_digit (hd e)) \<longrightarrow> d = []))) \<and>
   (normNameArea p = Some r \<longrightarrow>
      (\<exists>d. normNameArea (p @ e) = Some (r @ d) \<and> (\<forall>c\<in>set d. is_digit c) \<and>
           ((e = [] \<or> \<not> is_digit (hd e)) \<longrightarrow> d = [])))"
proof (intro conjI impI)
  show "normNameLine ''abc_87_1234xyz'' = Some ''ABC-1987-1234''" by code_simp
next
  assume h: "normNameLine p = Some r"
  from normNameLine_parts [OF h] obtain a p1 y p2 n e0 where
    p: "p = a @ p1 @ y @ p2 @ n @ e0" "r = upper a @ ''-'' @ chano y @ ''-'' @ n"
      "a \<noteq> []" "\<forall>c\<in>set a. is_alpha c" "\<forall>c\<in>set p1. is_sep c"
      "y \<noteq> []" "\<forall>c\<in>set y. is_digit c" "p2 \<noteq> []" "\<forall>c\<in>set p2. is_sep c"
      "n \<noteq> []" "\<forall>c\<in>set n. is_digit c" "e0 = [] \<or> \<not> is_digit (hd e0)"
    by blast
  show "\<exists>d. normNameLine (p @ e) = Some (r @ d) \<and> (\<forall>c\<in>set d. is_digit c) \<and>
           ((e = [] \<or> \<not> is_digit (hd e)) \<longrightarrow> d = [])"
  proof (cases "e0 = []")
    case False
    with p(12) have "e0 @ e = [] \<or> \<not> is_digit (hd (e0 @ e))" by simp
    with p have "normNameLine (a @ p1 @ y @ p2 @ n @ (e0 @ e)) =
        Some (upper a @ ''-'' @ chano y @ ''-'' @ n)"
      by (intro normNameLine_build)
    then have "normNameLine (p @ e) = Some (r @ [])" by (simp add: p(1,2))
    then show ?thesis by fastforce
  next
    case True
    from run_then_rest [of e is_digit] obtain d e' where
      d: "e = d @ e'" "\<forall>c\<in>set d. is_digit c" "e' = [] \<or> \<not> is_digit (hd e')"
        "(e = [] \<or> \<not> is_digit (hd e)) \<longrightarrow> d = []"
      by blast
    have nd: "n @ d \<noteq> []" "\<forall>c\<in>set (n @ d). is_digit c" using p(10,11) d(2) by auto
    have "normNameLine (a @ p1 @ y @ p2 @ (n @ d) @ e') =
        Some (upper a @ ''-'' @ chano y @ ''-'' @ (n @ d))"
      using p(3-9) nd d(3) by (rule normNameLine_build)
    then have "normNameLine (p @ e) = Some (r @ d)" by (simp add: p(1,2) True d(1))
    with d(2,4) show ?thesis by blast
  qed
next
  assume h: "normNameArea p = Some r"
  from normNameArea_parts [OF h] obtain a p1 y e0 where
    p: "p = a @ p1 @ y @ e0" "r = upper a @ ''-'' @ y"
      "a \<noteq> []" "\<forall>c\<in>set a. is_alpha c" "p1 \<noteq> []" "\<forall>c\<in>set p1. is_sep c"
      "y \<noteq> []" "\<forall>c\<in>set y. is_digit c" "e0 = [] \<or> \<not> is_digit (hd e0)"
    by blast
  show "\<exists>d. normNameArea (p @ e) = Some (r @ d) \<and> (\<forall>c\<in>set d. is_digit c) \<and>
           ((e = [] \<or> \<not> is_digit (hd e)) \<longrightarrow> d = [])"
  proof (cases "e0 = []")
    case False
    with p(9) have "e0 @ e = [] \<or> \<not> is_digit (hd (e0 @ e))" by simp
    with p have "normNameArea (a @ p1 @ y @ (e0 @ e)) = Some (upper a @ ''-'' @ y)"
      by (intro normNameArea_build)
    then have "normNameArea (p @ e) = Some (r @ [])" by (simp add: p(1,2))
    then show ?thesis by fastforce
  next
    case True
    from run_then_rest [of e is_digit] obtain d e' where
      d: "e = d @ e'" "\<forall>c\<in>set d. is_digit c" "e' = [] \<or> \<not> is_digit (hd e')"
        "(e = [] \<or> \<not> is_digit (hd e)) \<longrightarrow> d = []"
      by blast
    have yd: "y @ d \<noteq> []" "\<forall>c\<in>set (y @ d). is_digit c" using p(7,8) d(2) by auto
    have "normNameArea (a @ p1 @ (y @ d) @ e') = Some (upper a @ ''-'' @ (y @ d))"
      using p(3-6) yd d(3) by (rule normNameArea_build)
    then have "normNameArea (p @ e) = Some (r @ d)" by (simp add: p(1,2) True d(1))
    with d(2,4) show ?thesis by blast
  qed
qed

theorem normName_prefix_witness:
  "normNameLine ''abc_87_1234'' = Some ''ABC-1987-1234'' \<and>
   normNameLine (''abc_87_1234'' @ ''xyz'') = Some ''ABC-1987-1234'' \<and>
   normNameArea ''xyz-99'' = Some ''XYZ-99'' \<and>
   normNameArea (''xyz-99'' @ '' (north)'') = Some ''XYZ-99''"
proof -
  have l: "normNameLine ''abc_87_1234'' = Some ''ABC-1987-1234''" by code_simp
  have a: "normNameArea ''xyz-99'' = Some ''XYZ-99''" by code_simp
  have el: "\<not> is_digit (hd ''xyz'')" by (simp add: is_digit_def digits_def)
  have ea: "\<not> is_digit (hd '' (north)'')" by (simp add: is_digit_def digits_def)
  from normName_prefix [of "''abc_87_1234''" "''ABC-1987-1234''" "''xyz''"] l el
  have 1: "normNameLine (''abc_87_1234'' @ ''xyz'') = Some ''ABC-1987-1234''" by auto
  from normName_prefix [of "''xyz-99''" "''XYZ-99''" "'' (north)''"] a ea
  have 2: "normNameArea (''xyz-99'' @ '' (north)'') = Some ''XYZ-99''" by auto
  from l a 1 2 show ?thesis by blast
qed

section \<open>Claims about the header locator and the column widths\<close>

lemma after_loop_none:
  "\<forall>r\<in>set rs. take (length mark) r \<noteq> mark \<Longrightarrow>
     skiprows_header_after_loop mark False n rs = None"
  by (induction rs arbitrary: n) simp_all

lemma before_loop_none:
  "\<forall>r\<in>set rs. take (length mark) r \<noteq> mark \<Longrightarrow>
     skiprows_header_before_loop mark rold n rs = Inr None"
  by (induction rs arbitrary: n rold) simp_all

lemma diffs_Cons2: "diffs (s # t # ws) = (int t - int s) # diffs (t # ws)"
  by (simp add: diffs_def)

lemma diffs_single: "diffs [s] = []"
  by (simp add: diffs_def)

lemma sum_diffs: "sum_list (diffs (s # ws)) = int (last (s # ws)) - int s"
proof (induction ws arbitrary: s)
  case Nil
  show ?case by (simp add: diffs_single)
next
  case (Cons t ws)
  have "sum_list (diffs (s # t # ws)) = (int t - int s) + sum_list (diffs (t # ws))"
    by (simp add: diffs_Cons2)
  also have "\<dots> = (int t - int s) + (int (last (t # ws)) - int t)"
    by (simp only: Cons.IH)
  finally show ?case by simp
qed

lemma run_starts_bounds:
  "x \<in> set (run_starts inside i cs) \<Longrightarrow> i \<le> x \<and> x < i + length cs"
proof (induction cs arbitrary: inside i)
  case Nil
  then show ?case by simp
next
  case (Cons c cs)
  then show ?case by (fastforce split: if_splits)
qed

lemma ws_starts_bound: "x \<in> set (ws_starts h) \<Longrightarrow> x < length h"
  unfolding ws_starts_def using run_starts_bounds [of x False 0 h] by simp

text \<open>
  Claim C4, as amended. When no line of the file starts with the marker, both header
  locators run through the whole file and return \<open>None\<close>; neither raises. The failure
  shows only in the caller, which unpacks the result: \<open>_widths_skiprows\<close> ends with
  \<open>TypeError\<close>.
\<close>

theorem header_not_found:
  assumes "\<forall>r\<in>set doc. take (length mark) r \<noteq> mark"
  shows "skiprows_header_before doc mark = Inr None \<and>
         skiprows_header_after doc mark = None \<and>
         (mark = ''<<'' \<longrightarrow> widths_skiprows doc = Inl TypeError)"
proof -
  have b: "skiprows_header_before doc mark = Inr None"
    unfolding skiprows_header_before_def using assms by (rule before_loop_none)
  have a: "skiprows_header_after doc mark = None"
    unfolding skiprows_header_after_def using assms by (rule after_loop_none)
  from a have "mark = ''<<'' \<longrightarrow> widths_skiprows doc = Inl TypeError"
    by (auto simp: widths_skiprows_def)
  with a b show ?thesis by blast
qed

theorem header_not_found_witness:
  "skiprows_header_before [''STATION X Y'', ''1 2 3''] ''<<'' = Inr None \<and>
   skiprows_header_after [''STATION X Y'', ''1 2 3''] ''<<'' = None \<and>
   widths_skiprows [''STATION X Y'', ''1 2 3''] = Inl TypeError"
  using header_not_found [of "[''STATION X Y'', ''1 2 3'']" "''<<''"] by simp

text \<open>
  Claim C4 as stated says that the locators signal a failure instead of returning a
  default. On a file without the marker the before-variant returns normally, with
  \<open>None\<close>, and so does the after-variant.
\<close>

theorem header_not_found_counterexample:
  "\<not> isl (skiprows_header_before [''STATION X Y'', ''1 2 3''] ''<'') \<and>
   skiprows_header_before [''STATION X Y'', ''1 2 3''] ''<'' = Inr None \<and>
   skiprows_header_after [''STATION X Y'', ''1 2 3''] ''<<'' = None"
  by (simp add: skiprows_header_before_def skiprows_header_after_def)

lemma run_starts_unfold:
  "run_starts inside i (c # cs) =
     (if is_space c \<and> \<not> inside then [i] else []) @ run_starts (is_space c) (Suc i) cs"
  by simp

lemma run_starts_gt: "x \<in> set (run_starts inside (Suc i) cs) \<Longrightarrow> i < x"
  using run_starts_bounds [of x inside "Suc i" cs] by simp

lemma run_starts_mem:
  "x \<in> set (run_starts inside i cs) \<longleftrightarrow>
     (\<exists>j<length cs. x = i + j \<and> is_space (cs ! j) \<and>
        (if j = 0 then \<not> inside else \<not> is_space (cs ! (j - 1))))"
proof (induction cs arbitrary: inside i)
  case Nil
  show ?case by simp
next
  case (Cons c cs)
  let ?here = "x = i \<and> is_space c \<and> \<not> inside"
  let ?later = "\<exists>j<length cs. x = Suc i + j \<and> is_space (cs ! j) \<and>
        (if j = 0 then \<not> is_space c else \<not> is_space (cs ! (j - 1)))"
  have l: "x \<in> set (run_starts inside i (c # cs)) \<longleftrightarrow> ?here \<or> ?later"
    unfolding run_starts_unfold using Cons.IH [of "is_space c" "Suc i"] by auto
  have r: "(\<exists>j<length (c # cs). x = i + j \<and> is_space ((c # cs) ! j) \<and>
        (if j = 0 then \<not> inside else \<not> is_space ((c # cs) ! (j - 1)))) \<longleftrightarrow> ?here \<or> ?later"
  proof
    assume "\<exists>j<length (c # cs). x = i + j \<and> is_space ((c # cs) ! j) \<and>
        (if j = 0 then \<not> inside else \<not> is_space ((c # cs) ! (j - 1)))"
    then obtain j where j: "j < length (c # cs)" "x = i + j" "is_space ((c # cs) ! j)"
        "if j = 0 then \<not> inside else \<not> is_space ((c # cs) ! (j - 1))"
      by blast
    show "?here \<or> ?later"
    proof (cases j)
      case 0
      with j show ?thesis by simp
    next
      case (Suc k)
      with j have "k < length cs \<and> x = Suc i + k \<and> is_space (cs ! k) \<and>
          (if k = 0 then \<not> is_space c else \<not> is_space (cs ! (k - 1)))"
        by (cases k) auto
      then show ?thesis by blast
    qed
  next
    assume "?here \<or> ?later"
    then show "\<exists>j<length (c # cs). x = i + j \<and> is_space ((c # cs) ! j) \<and>
        (if j = 0 then \<not> inside else \<not> is_space ((c # cs) ! (j - 1)))"
    proof
      assume ?here
      then show ?thesis by (intro exI [of _ 0]) simp
    next
      assume ?later
      then obtain k where k: "k < length cs" "x = Suc i + k" "is_space (cs ! k)"
          "if k = 0 then \<not> is_space c else \<not> is_space (cs ! (k - 1))"
        by blast
      then have "Suc k < length (c # cs) \<and> x = i + Suc k \<and> is_space ((c # cs) ! Suc k) \<and>
          (if Suc k = 0 then \<not> inside else \<not> is_space ((c # cs) ! (Suc k - 1)))"
        by (cases k) auto
      then show ?thesis by blast
    qed
  qed
  from l r show ?case by blast
qed

lemma run_starts_sorted: "sorted_wrt (<) (run_starts inside i cs)"
proof (induction cs arbitrary: inside i)
  case Nil
  show ?case by simp
next
  case (Cons c cs)
  then show ?case using run_starts_gt [of _ True i cs] by auto
qed

lemma ws_starts_mem:
  "x \<in> set (ws_starts h) \<longleftrightarrow> x < length h \<and> run_start_at h x"
  unfolding ws_starts_def run_start_at_def run_starts_mem by auto

lemma ws_starts_filter: "ws_starts h = filter (run_start_at h) [0..<length h]"
proof (rule strict_sorted_equal)
  show "sorted_wrt (<) (ws_starts h)"
    unfolding ws_starts_def by (rule run_starts_sorted)
  show "sorted_wrt (<) (filter (run_start_at h) [0..<length h])"
    by (rule sorted_wrt_filter) simp
  show "set (ws_starts h) = set (filter (run_start_at h) [0..<length h])"
    using ws_starts_mem [of _ h] by auto
qed

lemma widths_too_few_runs:
  assumes "skiprows_header_after doc ''<<'' = Some (k, h)"
    and "length (filter (run_start_at h) [0..<length h]) < 2"
  shows "widths_skiprows doc = Inl IndexError"
proof -
  from assms(2) have "length (ws_starts h) < 2" by (simp add: ws_starts_filter)
  then have "diffs (ws_starts h) = []"
    by (cases "ws_starts h") (auto simp: diffs_def)
  then show ?thesis
    by (simp add: widths_skiprows_def assms(1) header_widths_def)
qed

lemma widths_no_break_space:
  "widths_skiprows [''<< geometry'', ''AB CD'' @ [CHR 0xA0] @ ''EF GH'' @ [CHR 0x0A]] =
     Inr ([4, 3, 3], 1)"
  by (simp add: widths_skiprows_def skiprows_header_after_def header_widths_def diffs_def
      ws_starts_def is_space_def)

text \<open>
  Claim C3, as amended. The whitespace-run start offsets of a header line are the offsets
  that hold whitespace and are not preceded by whitespace, in increasing order. When there
  are at least two of them, the widths \<open>_widths_skiprows\<close> derives are the differences
  between consecutive run starts, the first one widened by one. Their sum is the last run
  start minus the first plus one. It never exceeds the length of the line as read, and
  equals it exactly when the line starts with whitespace and its last whitespace run
  starts at its last character. With fewer than two runs the function ends with
  \<open>IndexError\<close> (\<open>widths_too_few_runs\<close>).
\<close>

theorem widths_from_run_starts:
  assumes "skiprows_header_after doc ''<<'' = Some (k, h)"
    and "filter (run_start_at h) [0..<length h] = s0 # s1 # rest"
  shows "ws_starts h = s0 # s1 # rest \<and>
         (\<exists>w. widths_skiprows doc = Inr (w, k) \<and>
           w = (int s1 - int s0 + 1) # diffs (s1 # rest) \<and>
           sum_list w = int (last (s1 # rest)) - int s0 + 1 \<and>
           sum_list w \<le> int (length h) \<and>
           (sum_list w = int (length h) \<longleftrightarrow> s0 = 0 \<and> Suc (last (s1 # rest)) = length h))"
proof -
  have ws: "ws_starts h = s0 # s1 # rest"
    using assms(2) by (simp add: ws_starts_filter)
  define w where "w = (int s1 - int s0 + 1) # diffs (s1 # rest)"
  have hw: "header_widths h = Inr w"
    by (simp add: header_widths_def ws diffs_Cons2 w_def)
  have r: "widths_skiprows doc = Inr (w, k)"
    by (simp add: widths_skiprows_def assms(1) hw)
  have s: "sum_list w = int (last (s1 # rest)) - int s0 + 1"
    unfolding w_def using sum_diffs [of s1 rest] by simp
  have "last (s1 # rest) \<in> set (ws_starts h)"
    unfolding ws using last_in_set [of "s1 # rest"] by simp
  then have b: "last (s1 # rest) < length h" by (rule ws_starts_bound)
  have le: "sum_list w \<le> int (length h)" using s b by linarith
  have eq: "sum_list w = int (length h) \<longleftrightarrow> s0 = 0 \<and> Suc (last (s1 # rest)) = length h"
    using s b by linarith
  from ws r s le eq w_def show ?thesis by blast
qed

theorem widths_from_run_starts_witness:
  "widths_skiprows [''<< geometry'', '' STATION X Y'' @ [CHR 0x0A], ''       1 5 7'' @ [CHR 0x0A]]
     = Inr ([9, 2, 2], 1) \<and>
   ws_starts ('' STATION X Y'' @ [CHR 0x0A]) = [0, 8, 10, 12] \<and>
   sum_list [9, 2, 2 :: int] = int (length ('' STATION X Y'' @ [CHR 0x0A]))"
proof -
  have a: "skiprows_header_after
      [''<< geometry'', '' STATION X Y'' @ [CHR 0x0A], ''       1 5 7'' @ [CHR 0x0A]] ''<<''
      = Some (1, '' STATION X Y'' @ [CHR 0x0A])"
    by (simp add: skiprows_header_after_def)
  have "ws_starts ('' STATION X Y'' @ [CHR 0x0A]) = 0 # 8 # [10, 12]"
    by (simp add: ws_starts_def is_space_def)
  then have b: "filter (run_start_at ('' STATION X Y'' @ [CHR 0x0A]))
      [0..<length ('' STATION X Y'' @ [CHR 0x0A])] = 0 # 8 # [10, 12]"
    by (simp only: ws_starts_filter)
  from widths_from_run_starts [OF a b] show ?thesis
    by (simp add: diffs_def)
qed

text \<open>
  Claim C3 as stated equates the sum of the widths with the length of the header line.
  For a header whose fields are separated by single blanks and whose first field starts
  at offset 0, the sum is neither the length of the line with its terminator nor the
  length without it.
\<close>

theorem widths_sum_counterexample:
  "widths_skiprows [''<< geometry'', ''STATION X Y'' @ [CHR 0x0A], ''1 5 7'' @ [CHR 0x0A]]
     = Inr ([3, 2], 1) \<and>
   sum_list [3, 2 :: int] \<noteq> int (length (''STATION X Y'' @ [CHR 0x0A])) \<and>
   sum_list [3, 2 :: int] \<noteq> int (length ''STATION X Y'')"
  by (simp add: widths_skiprows_def skiprows_header_after_def header_widths_def diffs_def
      ws_starts_def is_space_def)

section \<open>Claims about metadata extraction\<close>

text \<open>
  A successful match returns one captured string for each group of the pattern, and
  \<open>ptarget\<close> has exactly one group: \<open>group(1)\<close> always exists.
\<close>

lemma try_len_Some:
  "try_len k lo s n = Some (piece, caps) \<Longrightarrow> \<exists>m. k (drop m s) = Some caps"
proof (induction n)
  case 0
  then show ?case by (auto split: if_splits option.splits intro: exI [of _ 0])
next
  case (Suc n)
  then show ?case by (auto split: if_splits option.splits)
qed

lemma match_items_groups:
  "match_items p s = Some caps \<Longrightarrow> length caps = length (filter is_group p)"
proof (induction p arbitrary: s caps)
  case Nil
  then show ?case by simp
next
  case (Cons it rest)
  obtain cls q grp where it: "it = Item cls q grp" by (cases it)
  from Cons.prems obtain piece caps' where
    t: "try_len (match_items rest) (qmin q) s (qcap q (length (takeWhile cls s))) = Some (piece, caps')"
    and c: "caps = (if grp then piece # caps' else caps')"
    by (auto simp: it split: option.splits)
  from try_len_Some [OF t] obtain m where "match_items rest (drop m s) = Some caps'" by blast
  then have "length caps' = length (filter is_group rest)" by (rule Cons.IH)
  then show ?case by (simp add: c it)
qed

lemma re_search_groups:
  "re_search p s = Some caps \<Longrightarrow> length caps = length (filter is_group p)"
proof (induction s)
  case Nil
  then show ?case by (simp add: match_items_groups del: match_items.simps)
next
  case (Cons c cs)
  then show ?case
    by (auto simp: match_items_groups simp del: match_items.simps split: option.splits)
qed

lemma ptarget_groups: "length (filter is_group (ptarget t)) = 1"
  by (simp add: ptarget_def filter_map comp_def)

lemma ptarget_one_group: "re_search (ptarget t) l = Some caps \<Longrightarrow> \<exists>v. caps = [v]"
proof -
  assume "re_search (ptarget t) l = Some caps"
  then have "length caps = 1" using re_search_groups ptarget_groups by metis
  then show ?thesis by (cases caps) auto
qed

lemma promax2meta_none:
  "promax2meta ls t = None \<longleftrightarrow> (\<forall>l\<in>set ls. re_search (ptarget t) l = None)"
proof (induction ls)
  case Nil
  show ?case by simp
next
  case (Cons l ls)
  show ?case
  proof (cases "re_search (ptarget t) l")
    case None
    then show ?thesis by (simp add: Cons.IH)
  next
    case (Some caps)
    with ptarget_one_group obtain v where "caps = [v]" by blast
    with Some show ?thesis by simp
  qed
qed

lemma promax2meta_first:
  "\<forall>l\<in>set pre. re_search (ptarget t) l = None \<Longrightarrow>
   re_search (ptarget t) l = Some [v] \<Longrightarrow> promax2meta (pre @ l # post) t = Some v"
  by (induction pre) simp_all

text \<open>
  The matcher is sound and complete for \<open>fits\<close>: a match it returns fits the pattern, and
  it finds a match wherever some text fits.
\<close>

lemma try_len_sound:
  "try_len k lo s n = Some (piece, caps) \<Longrightarrow>
     \<exists>m\<le>n. lo \<le> m \<and> piece = take m s \<and> k (drop m s) = Some caps"
proof (induction n)
  case 0
  then show ?case by (auto split: if_splits option.splits)
next
  case (Suc n)
  show ?case
  proof (cases "k (drop (Suc n) s)")
    case None
    with Suc.prems have "try_len k lo s n = Some (piece, caps)"
      by (simp split: if_splits)
    from Suc.IH [OF this] show ?thesis using le_SucI by blast
  next
    case (Some c)
    with Suc.prems have "lo \<le> Suc n \<and> piece = take (Suc n) s \<and> c = caps"
      by (simp split: if_splits)
    with Some show ?thesis by blast
  qed
qed

lemma try_len_complete:
  "m \<le> n \<Longrightarrow> lo \<le> m \<Longrightarrow> k (drop m s) \<noteq> None \<Longrightarrow> try_len k lo s n \<noteq> None"
proof (induction n)
  case 0
  then show ?case by (auto split: option.splits)
next
  case (Suc n)
  show ?case
  proof (cases "m = Suc n")
    case True
    with Suc.prems show ?thesis by (auto split: option.splits)
  next
    case False
    with Suc.prems have "m \<le> n" by simp
    from Suc.IH [OF this Suc.prems(2,3)] Suc.prems(2) \<open>m \<le> n\<close>
    show ?thesis by (auto split: option.splits)
  qed
qed

lemma take_in_run:
  assumes "m \<le> length (takeWhile cls s)"
  shows "list_all cls (take m s)"
proof -
  have "take m s = take m (takeWhile cls s)"
    using assms by (metis takeWhile_eq_take take_take min.absorb1)
  moreover have "list_all cls (takeWhile cls s)"
    by (auto simp: list_all_iff dest: set_takeWhileD)
  ultimately show ?thesis
    by (auto simp: list_all_iff dest: in_set_takeD)
qed

lemma qcap_bound: "m \<le> qcap q n \<Longrightarrow> m \<le> n \<and> qmax_ok q m"
  by (cases q) auto

lemma qcap_reach: "m \<le> n \<Longrightarrow> qmax_ok q m \<Longrightarrow> m \<le> qcap q n"
  by (cases q) auto

lemma match_items_sound:
  "match_items p s = Some caps \<Longrightarrow> \<exists>u r. s = u @ r \<and> fits p u caps"
proof (induction p arbitrary: s caps)
  case Nil
  then have "s = [] @ s \<and> fits [] [] caps" by (simp add: fits_Nil)
  then show ?case by blast
next
  case (Cons it rest)
  obtain cls q grp where it: "it = Item cls q grp" by (cases it)
  from Cons.prems obtain piece caps' where
    t: "try_len (match_items rest) (qmin q) s (qcap q (length (takeWhile cls s))) =
          Some (piece, caps')"
    and c: "caps = (if grp then piece # caps' else caps')"
    by (auto simp: it split: option.splits)
  from try_len_sound [OF t] obtain m where
    m: "m \<le> qcap q (length (takeWhile cls s))" "qmin q \<le> m" "piece = take m s"
       "match_items rest (drop m s) = Some caps'"
    by blast
  from Cons.IH [OF m(4)] obtain u r where u: "drop m s = u @ r" "fits rest u caps'" by blast
  from qcap_bound [OF m(1)] have b: "m \<le> length (takeWhile cls s)" "qmax_ok q m" by simp_all
  have ml: "m \<le> length s" using b(1) length_takeWhile_le [of cls s] by (rule le_trans)
  have lp: "length piece = m" using ml by (simp add: m(3))
  have pc: "list_all cls piece" unfolding m(3) using b(1) by (rule take_in_run)
  have "fits (Item cls q grp # rest) (piece @ u) (if grp then piece # caps' else caps')"
    using u(2) pc by (rule fits_Cons) (simp_all add: lp m(2) b(2))
  moreover have "s = (piece @ u) @ r"
    using u(1) by (simp add: m(3)) (metis append_take_drop_id)
  ultimately show ?case unfolding it c by blast
qed

lemma run_covers:
  assumes "list_all cls piece"
  shows "length piece \<le> length (takeWhile cls (piece @ v))"
proof -
  have "takeWhile cls (piece @ v) = piece @ takeWhile cls v"
    using assms by (simp add: list_all_iff takeWhile_append2)
  then show ?thesis by simp
qed

lemma match_items_complete:
  "fits p u caps \<Longrightarrow> match_items p (u @ r) \<noteq> None"
proof (induction arbitrary: r rule: fits.induct)
  case fits_Nil
  show ?case by simp
next
  case (fits_Cons rest u caps cls piece q grp)
  let ?s = "(piece @ u) @ r"
  let ?m = "length piece"
  have run: "?m \<le> length (takeWhile cls ?s)"
    using run_covers [OF fits_Cons.hyps(2), of "u @ r"] by simp
  have cap: "?m \<le> qcap q (length (takeWhile cls ?s))"
    using run fits_Cons.hyps(4) by (rule qcap_reach)
  have k: "match_items rest (drop ?m ?s) \<noteq> None"
    using fits_Cons.IH [of r] by simp
  have "try_len (match_items rest) (qmin q) ?s (qcap q (length (takeWhile cls ?s))) \<noteq> None"
    using cap fits_Cons.hyps(3) k by (rule try_len_complete)
  then show ?case by (auto split: option.splits)
qed

lemma re_search_sound:
  "re_search p s = Some caps \<Longrightarrow> \<exists>a u b. s = a @ u @ b \<and> fits p u caps"
proof (induction s)
  case Nil
  then have "match_items p [] = Some caps" by simp
  from match_items_sound [OF this] obtain u r where "[] = u @ r" "fits p u caps" by blast
  then have "[] = [] @ u @ r \<and> fits p u caps" by simp
  then show ?case by blast
next
  case (Cons c cs)
  show ?case
  proof (cases "match_items p (c # cs)")
    case (Some caps')
    with Cons.prems have "match_items p (c # cs) = Some caps" by simp
    from match_items_sound [OF this] obtain u r where "c # cs = u @ r" "fits p u caps" by blast
    then have "c # cs = [] @ u @ r \<and> fits p u caps" by simp
    then show ?thesis by blast
  next
    case None
    with Cons.prems have "re_search p cs = Some caps" by simp
    from Cons.IH [OF this] obtain a u b where "cs = a @ u @ b" "fits p u caps" by blast
    then have "c # cs = (c # a) @ u @ b \<and> fits p u caps" by simp
    then show ?thesis by blast
  qed
qed

lemma re_search_complete:
  "fits p u caps \<Longrightarrow> re_search p (a @ u @ b) \<noteq> None"
proof (induction a)
  case Nil
  from match_items_complete [OF Nil, of b] show ?case
    by (cases "u @ b") (auto split: option.splits)
next
  case (Cons c a)
  from Cons.IH [OF Cons.prems] show ?case by (auto split: option.splits)
qed

lemma re_search_None_iff:
  "re_search p s = None \<longleftrightarrow> \<not> (\<exists>a u b caps. s = a @ u @ b \<and> fits p u caps)"
proof
  assume "re_search p s = None"
  then show "\<not> (\<exists>a u b caps. s = a @ u @ b \<and> fits p u caps)"
    using re_search_complete by blast
next
  assume n: "\<not> (\<exists>a u b caps. s = a @ u @ b \<and> fits p u caps)"
  show "re_search p s = None"
  proof (cases "re_search p s")
    case None
    then show ?thesis .
  next
    case (Some caps)
    from re_search_sound [OF this] n show ?thesis by blast
  qed
qed

inductive_cases fits_ConsE: "fits (Item cls q grp # rest) u caps"

inductive_cases fits_NilE: "fits [] u caps"

lemma fits_item:
  assumes "fits (Item cls q grp # rest) u caps"
  shows "\<exists>piece u' caps'. u = piece @ u' \<and> fits rest u' caps' \<and> list_all cls piece \<and>
           qmin q \<le> length piece \<and> qmax_ok q (length piece) \<and>
           caps = (if grp then piece # caps' else caps')"
  using assms by (rule fits_ConsE) blast

lemma fits_literal:
  "fits (map (\<lambda>t. Item (\<lambda>c. lower_char c = lower_char t) One False) key @ rest) u caps \<Longrightarrow>
     \<exists>k u'. u = k @ u' \<and> map lower_char k = map lower_char key \<and> fits rest u' caps"
proof (induction key arbitrary: u)
  case Nil
  then have "u = [] @ u \<and> map lower_char [] = map lower_char [] \<and> fits rest u caps" by simp
  then show ?case by blast
next
  case (Cons t key)
  from Cons.prems have
    "fits (Item (\<lambda>c. lower_char c = lower_char t) One False #
           (map (\<lambda>t. Item (\<lambda>c. lower_char c = lower_char t) One False) key @ rest)) u caps"
    by simp
  from fits_item [OF this] obtain piece u' where
    p: "u = piece @ u'"
       "fits (map (\<lambda>t. Item (\<lambda>c. lower_char c = lower_char t) One False) key @ rest) u' caps"
       "list_all (\<lambda>c. lower_char c = lower_char t) piece" "1 \<le> length piece" "length piece \<le> 1"
    by auto
  from p(4,5) obtain c where c: "piece = [c]"
    by (cases piece) auto
  from Cons.IH [OF p(2)] obtain k u'' where
    k: "u' = k @ u''" "map lower_char k = map lower_char key" "fits rest u'' caps"
    by blast
  have "u = (c # k) @ u'' \<and> map lower_char (c # k) = map lower_char (t # key) \<and> fits rest u'' caps"
    using p(1,3) c k by simp
  then show ?case by blast
qed

lemma quote_piece: "list_all is_dquote q \<Longrightarrow> length q \<le> 1 \<Longrightarrow> quote_opt q"
  by (cases q) (auto simp: quote_opt_def is_dquote_def)

lemma ptarget_fits_shape:
  assumes "fits (ptarget t) u caps"
  shows "\<exists>k s1 d s2 q1 v q2. u = k @ s1 @ [d] @ s2 @ q1 @ v @ q2 \<and> caps = [v] \<and>
           map lower_char k = map lower_char t \<and>
           list_all is_space s1 \<and> is_eq_colon d \<and> list_all is_space s2 \<and>
           quote_opt q1 \<and> v \<noteq> [] \<and> list_all is_word_or_dash v \<and> quote_opt q2"
proof -
  from assms obtain k u0 where
    k: "u = k @ u0" "map lower_char k = map lower_char t"
    and f0: "fits [Item is_space Star False, Item is_eq_colon One False, Item is_space Star False,
      Item is_dquote Opt False, Item is_word_or_dash Plus True, Item is_dquote Opt False] u0 caps"
    unfolding ptarget_def using fits_literal by blast
  from fits_item [OF f0] obtain s1 u1 where
    s1: "u0 = s1 @ u1" "list_all is_space s1"
    and f1: "fits [Item is_eq_colon One False, Item is_space Star False,
      Item is_dquote Opt False, Item is_word_or_dash Plus True, Item is_dquote Opt False] u1 caps"
    by auto
  from fits_item [OF f1] obtain dp u2 where
    d: "u1 = dp @ u2" "list_all is_eq_colon dp" "1 \<le> length dp" "length dp \<le> 1"
    and f2: "fits [Item is_space Star False,
      Item is_dquote Opt False, Item is_word_or_dash Plus True, Item is_dquote Opt False] u2 caps"
    by auto
  from d(3,4) obtain dc where dc: "dp = [dc]" by (cases dp) auto
  from fits_item [OF f2] obtain s2 u3 where
    s2: "u2 = s2 @ u3" "list_all is_space s2"
    and f3: "fits [Item is_dquote Opt False, Item is_word_or_dash Plus True,
      Item is_dquote Opt False] u3 caps"
    by auto
  from fits_item [OF f3] obtain q1 u4 where
    q1: "u3 = q1 @ u4" "list_all is_dquote q1" "length q1 \<le> 1"
    and f4: "fits [Item is_word_or_dash Plus True, Item is_dquote Opt False] u4 caps"
    by auto
  from fits_item [OF f4] obtain v u5 caps5 where
    v: "u4 = v @ u5" "list_all is_word_or_dash v" "1 \<le> length v" "caps = v # caps5"
    and f5: "fits [Item is_dquote Opt False] u5 caps5"
    by auto
  from fits_item [OF f5] obtain q2 u6 where
    q2: "u5 = q2 @ u6" "list_all is_dquote q2" "length q2 \<le> 1"
    and f6: "fits [] u6 caps5"
    by auto
  from f6 have e: "u6 = [] \<and> caps5 = []" by (rule fits_NilE) simp
  have vn: "v \<noteq> []" using v(3) by auto
  have "u = k @ s1 @ [dc] @ s2 @ q1 @ v @ q2 \<and> caps = [v]"
    using k(1) s1(1) d(1) dc s2(1) q1(1) v(1,4) q2(1) e by simp
  moreover have "is_eq_colon dc" using d(2) dc by simp
  ultimately show ?thesis
    using k(2) s1(2) s2(2) quote_piece [OF q1(2,3)] vn v(2) quote_piece [OF q2(2,3)]
    by blast
qed

lemma ptarget_match_shape:
  assumes "re_search (ptarget t) l = Some [v]"
  shows "\<exists>a k s1 d s2 q1 q2 b. l = a @ k @ s1 @ [d] @ s2 @ q1 @ v @ q2 @ b \<and>
           map lower_char k = map lower_char t \<and>
           list_all is_space s1 \<and> is_eq_colon d \<and> list_all is_space s2 \<and>
           quote_opt q1 \<and> v \<noteq> [] \<and> list_all is_word_or_dash v \<and> quote_opt q2"
proof -
  from re_search_sound [OF assms] obtain a u b where
    l: "l = a @ u @ b" "fits (ptarget t) u [v]" by blast
  from ptarget_fits_shape [OF l(2)] obtain k s1 d s2 q1 v' q2 where
    s: "u = k @ s1 @ [d] @ s2 @ q1 @ v' @ q2" "[v] = [v']"
       "map lower_char k = map lower_char t"
       "list_all is_space s1" "is_eq_colon d" "list_all is_space s2"
       "quote_opt q1" "v' \<noteq> []" "list_all is_word_or_dash v'" "quote_opt q2"
    by blast
  have "l = a @ k @ s1 @ [d] @ s2 @ q1 @ v @ q2 @ b" using l(1) s(1,2) by simp
  with s show ?thesis by blast
qed

lemma promax2meta_Some:
  "promax2meta ls t = Some v \<Longrightarrow>
     \<exists>pre l post. ls = pre @ l # post \<and> (\<forall>x\<in>set pre. re_search (ptarget t) x = None) \<and>
        re_search (ptarget t) l = Some [v]"
proof (induction ls)
  case Nil
  then show ?case by simp
next
  case (Cons l ls)
  show ?case
  proof (cases "re_search (ptarget t) l")
    case None
    with Cons.prems have "promax2meta ls t = Some v" by simp
    from Cons.IH [OF this] obtain pre l' post where
      p: "ls = pre @ l' # post" "\<forall>x\<in>set pre. re_search (ptarget t) x = None"
         "re_search (ptarget t) l' = Some [v]"
      by blast
    have "l # ls = (l # pre) @ l' # post \<and> (\<forall>x\<in>set (l # pre). re_search (ptarget t) x = None)"
      using p(1,2) None by simp
    with p(3) show ?thesis by blast
  next
    case (Some caps)
    with ptarget_one_group obtain v' where c: "caps = [v']" by blast
    with Some Cons.prems have "v' = v" by simp
    with Some c have "l # ls = [] @ l # ls \<and> (\<forall>x\<in>set []. re_search (ptarget t) x = None) \<and>
        re_search (ptarget t) l = Some [v]" by simp
    then show ?thesis by blast
  qed
qed

text \<open>
  Claim C9. \<open>promax2meta\<close> returns the value of the first line that matches the pattern
  \<open>key (= | :) "value"\<close>, whatever the lines after it hold, and at most one value; it
  returns no value exactly when no line matches. A line matches exactly when some part of
  it fits the pattern, and the value returned stands in the line after the key, matched
  without regard to case, optional whitespace, \<open>=\<close> or \<open>:\<close>, optional whitespace and an
  optional quote. Of the lines \<open>Area: xyz-99\<close>, \<open>LINE = "abc_87_1234" and more\<close> and
  \<open>line: def_88_5678\<close> the key \<open>Line\<close> yields \<open>abc_87_1234\<close>.
\<close>

theorem promax2meta_first_match:
  \<open>(promax2meta ls t = None \<longleftrightarrow> (\<forall>l\<in>set ls. re_search (ptarget t) l = None)) \<and>
   (promax2meta ls t = Some v \<longleftrightarrow>
      (\<exists>pre l post. ls = pre @ l # post \<and> (\<forall>x\<in>set pre. re_search (ptarget t) x = None) \<and>
         re_search (ptarget t) l = Some [v])) \<and>
   ((\<forall>l\<in>set pre. re_search (ptarget t) l = None) \<and> re_search (ptarget t) l = Some [v] \<longrightarrow>
      promax2meta (pre @ l # post) t = Some v) \<and>
   (re_search (ptarget t) l = None \<longleftrightarrow>
      \<not> (\<exists>a u b caps. l = a @ u @ b \<and> fits (ptarget t) u caps)) \<and>
   (re_search (ptarget t) l = Some [v] \<longrightarrow>
      (\<exists>a k s1 d s2 q1 q2 b. l = a @ k @ s1 @ [d] @ s2 @ q1 @ v @ q2 @ b \<and>
           map lower_char k = map lower_char t \<and>
           list_all is_space s1 \<and> is_eq_colon d \<and> list_all is_space s2 \<and>
           quote_opt q1 \<and> v \<noteq> [] \<and> list_all is_word_or_dash v \<and> quote_opt q2)) \<and>
   promax2meta [''Area: xyz-99'', ''   LINE = "abc_87_1234" and more'', ''line: def_88_5678'']
      ''Line'' = Some ''abc_87_1234'' \<and>
   promax2meta [''Line = '' @ [CHR 0xD1] @ ''1'', ''Line = abc''] ''Line'' = Some [CHR 0xD1, CHR ''1'']\<close>
proof (intro conjI impI)
  show "promax2meta ls t = None \<longleftrightarrow> (\<forall>l\<in>set ls. re_search (ptarget t) l = None)"
    by (rule promax2meta_none)
next
  show "promax2meta ls t = Some v \<longleftrightarrow>
      (\<exists>pre l post. ls = pre @ l # post \<and> (\<forall>x\<in>set pre. re_search (ptarget t) x = None) \<and>
         re_search (ptarget t) l = Some [v])"
    using promax2meta_Some promax2meta_first by blast
next
  assume "(\<forall>l\<in>set pre. re_search (ptarget t) l = None) \<and> re_search (ptarget t) l = Some [v]"
  then show "promax2meta (pre @ l # post) t = Some v"
    using promax2meta_first by blast
next
  show "re_search (ptarget t) l = None \<longleftrightarrow>
      \<not> (\<exists>a u b caps. l = a @ u @ b \<and> fits (ptarget t) u caps)"
    by (rule re_search_None_iff)
next
  assume "re_search (ptarget t) l = Some [v]"
  then show "\<exists>a k s1 d s2 q1 q2 b. l = a @ k @ s1 @ [d] @ s2 @ q1 @ v @ q2 @ b \<and>
           map lower_char k = map lower_char t \<and>
           list_all is_space s1 \<and> is_eq_colon d \<and> list_all is_space s2 \<and>
           quote_opt q1 \<and> v \<noteq> [] \<and> list_all is_word_or_dash v \<and> quote_opt q2"
    by (rule ptarget_match_shape)
next
  show \<open>promax2meta [''Area: xyz-99'', ''   LINE = "abc_87_1234" and more'', ''line: def_88_5678'']
      ''Line'' = Some ''abc_87_1234''\<close>
    by code_simp
next
  show "promax2meta [''Line = '' @ [CHR 0xD1] @ ''1'', ''Line = abc''] ''Line'' =
      Some [CHR 0xD1, CHR ''1'']"
    by code_simp
qed

theorem promax2meta_first_match_witness:
  \<open>re_search (ptarget ''Line'') ''Area: xyz-99'' = None \<and>
   re_search (ptarget ''Line'') ''Line = "abc_87_1234"'' = Some [''abc_87_1234''] \<and>
   promax2meta ([''Area: xyz-99''] @ ''Line = "abc_87_1234"'' # [''Line = "def_88_5678"''])
     ''Line'' = Some ''abc_87_1234'' \<and>
   promax2meta [''Area: xyz-99'', ''station 12''] ''Line'' = None\<close>
proof -
  have a: "re_search (ptarget ''Line'') ''Area: xyz-99'' = None" by code_simp
  have b: \<open>re_search (ptarget ''Line'') ''Line = "abc_87_1234"'' = Some [''abc_87_1234'']\<close>
    by code_simp
  have c: "re_search (ptarget ''Line'') ''station 12'' = None" by code_simp
  from promax2meta_first_match
    [of "[''Area: xyz-99'', ''station 12'']" "''Line''" "''abc_87_1234''" "[''Area: xyz-99'']"
        \<open>''Line = "abc_87_1234"''\<close> \<open>[''Line = "def_88_5678"'']\<close>]
    a b c
  show ?thesis by simp
qed

text \<open>
  Values and keys with Latin-1 letters, a no-break space and a next-line control between
  key and value.
\<close>

lemma promax2meta_latin1_examples:
  "promax2meta [''Line = caf'' @ [CHR 0xE9] @ ''_87_12''] ''Line'' =
     Some (''caf'' @ [CHR 0xE9] @ ''_87_12'') \<and>
   promax2meta [''Area = CA'' @ [CHR 0xD1] @ ''O-87''] ''Area'' =
     Some (''CA'' @ [CHR 0xD1] @ ''O-87'') \<and>
   promax2meta [''CA'' @ [CHR 0xD1] @ ''O'' @ [CHR 0xA0] @ '':'' @ [CHR 0x85] @ ''x'' @ [CHR 0xD7]]
     (''ca'' @ [CHR 0xF1] @ ''o'') = Some ''x''"
  by code_simp

section \<open>Claims about schema inference\<close>

lemma map_err_Inr: "(\<And>x. x \<in> set xs \<Longrightarrow> f x = Inr (g x)) \<Longrightarrow> map_err f xs = Inr (map g xs)"
  by (induction xs) simp_all

lemma chname_nonempty: "x \<noteq> [] \<Longrightarrow> chname x = Inr (strip_star x)"
  by (simp add: chname_def strip_star_def)

lemma primary_mark_nonempty:
  "x \<noteq> [] \<Longrightarrow> primary_mark x = Inr (if last x = CHR ''*'' then ''PRIMARY KEY'' else [])"
  by (simp add: primary_mark_def)

lemma primary_keys_Cons:
  "primary_keys ((c, t, p) # ctp) =
     (if p = ''PRIMARY KEY'' then c # primary_keys ctp else primary_keys ctp)"
  by (simp add: primary_keys_def)

lemma primary_keys_columns:
  "length ts = length cs \<Longrightarrow>
   primary_keys (zip (map strip_star cs)
       (zip ts (map (\<lambda>x. if last x = CHR ''*'' then ''PRIMARY KEY'' else []) cs))) =
   map strip_star (filter (\<lambda>x. last x = CHR ''*'') cs)"
proof (induction cs arbitrary: ts)
  case Nil
  show ?case by (simp add: primary_keys_def)
next
  case (Cons c cs)
  then obtain t ts' where ts: "ts = t # ts'" "length ts' = length cs"
    by (cases ts) auto
  show ?case
    by (simp add: ts(1) primary_keys_Cons Cons.IH [OF ts(2)])
qed

text \<open>
  Claim C8. For a table whose index has a non-empty name and whose column names are
  non-empty, \<open>cols\<close> emits the index first and always as primary key, whether or not its
  name ends in \<open>*\<close>; every column after it is marked primary key exactly when its name
  ends in \<open>*\<close>; every emitted name is the name without that trailing marker; and the
  primary-key list \<open>to_access\<close> builds is the index followed by the marked columns.
\<close>

theorem cols_primary_keys:
  assumes nm: "index_name df = Some nm" "nm \<noteq> []"
    and cs: "\<forall>x\<in>set (columns df). x \<noteq> []"
    and len: "length (dtypes df) = length (columns df)"
  shows "\<exists>ctp. cols df = Inr ctp \<and>
      length ctp = Suc (length (columns df)) \<and>
      ctp ! 0 = (strip_star nm, chtype (index_dtype df), ''PRIMARY KEY'') \<and>
      (\<forall>i<length (columns df).
         ctp ! Suc i = (strip_star (columns df ! i), chtype (dtypes df ! i),
                        if last (columns df ! i) = CHR ''*'' then ''PRIMARY KEY'' else [])) \<and>
      primary_keys ctp =
        strip_star nm # map strip_star (filter (\<lambda>x. last x = CHR ''*'') (columns df)) \<and>
      (\<forall>x. x \<noteq> [] \<longrightarrow> (if last x = CHR ''*'' then strip_star x @ ''*'' else strip_star x) = x)"
proof -
  let ?c = "columns df"
  let ?mk = "\<lambda>x. if last x = CHR ''*'' then ''PRIMARY KEY'' else []"
  let ?rest = "zip (map strip_star ?c) (zip (map chtype (dtypes df)) (map ?mk ?c))"
  let ?ctp = "(strip_star nm, chtype (index_dtype df), ''PRIMARY KEY'') # ?rest"
  have p: "map_err primary_mark ?c = Inr (map ?mk ?c)"
    by (rule map_err_Inr) (simp add: primary_mark_nonempty cs)
  have c: "map_err chname ?c = Inr (map strip_star ?c)"
    by (rule map_err_Inr) (simp add: chname_nonempty cs)
  have r: "cols df = Inr ?ctp"
    by (simp add: cols_def Let_def p c nm chname_nonempty)
  have l: "length ?ctp = Suc (length ?c)" by (simp add: len)
  have z: "?ctp ! 0 = (strip_star nm, chtype (index_dtype df), ''PRIMARY KEY'')" by simp
  have n: "\<forall>i<length ?c. ?ctp ! Suc i =
      (strip_star (?c ! i), chtype (dtypes df ! i), ?mk (?c ! i))"
    by (simp add: len)
  have k: "primary_keys ?ctp = strip_star nm # map strip_star (filter (\<lambda>x. last x = CHR ''*'') ?c)"
    using primary_keys_columns [of "map chtype (dtypes df)" ?c]
    by (simp add: primary_keys_Cons len)
  have s: "\<forall>x. x \<noteq> [] \<longrightarrow> (if last x = CHR ''*'' then strip_star x @ ''*'' else strip_star x) = x"
    by (auto simp: strip_star_def) (metis append_butlast_last_id)
  from r l z n k s show ?thesis by blast
qed

theorem cols_primary_keys_witness:
  "cols \<lparr>index_name = Some ''CDP'', index_dtype = ''int64'',
         columns = [''X_COORD'', ''LINE*''], dtypes = [''float64'', ''O'']\<rparr> =
     Inr [(''CDP'', Some ''int'', ''PRIMARY KEY''), (''X_COORD'', Some ''double'', []),
          (''LINE'', Some ''text'', ''PRIMARY KEY'')] \<and>
   primary_keys [(''CDP'', Some ''int'', ''PRIMARY KEY''), (''X_COORD'', Some ''double'', []),
          (''LINE'', Some ''text'', ''PRIMARY KEY'')] = [''CDP'', ''LINE'']"
proof -
  let ?df = "\<lparr>index_name = Some ''CDP'', index_dtype = ''int64'',
         columns = [''X_COORD'', ''LINE*''], dtypes = [''float64'', ''O'']\<rparr>"
  from cols_primary_keys [of ?df "''CDP''"]
  obtain ctp where c: "cols ?df = Inr ctp" "length ctp = Suc (length (columns ?df))"
      "ctp ! 0 = (strip_star ''CDP'', chtype (index_dtype ?df), ''PRIMARY KEY'')"
      "\<forall>i<length (columns ?df).
         ctp ! Suc i = (strip_star (columns ?df ! i), chtype (dtypes ?df ! i),
                        if last (columns ?df ! i) = CHR ''*'' then ''PRIMARY KEY'' else [])"
      "primary_keys ctp =
        strip_star ''CDP'' # map strip_star (filter (\<lambda>x. last x = CHR ''*'') (columns ?df))"
    by auto
  have e: "cols ?df = Inr [(''CDP'', Some ''int'', ''PRIMARY KEY''),
      (''X_COORD'', Some ''double'', []), (''LINE'', Some ''text'', ''PRIMARY KEY'')]"
    by (simp add: cols_def chname_def primary_mark_def chtype_def)
  with c(1) have "ctp = [(''CDP'', Some ''int'', ''PRIMARY KEY''),
      (''X_COORD'', Some ''double'', []), (''LINE'', Some ''text'', ''PRIMARY KEY'')]" by simp
  with c(5) e show ?thesis by (simp add: strip_star_def)
qed

section \<open>Claims about row loading\<close>

lemma keyed_insert_present:
  "key r \<in> set (map key tbl) \<Longrightarrow> keyed_insert key tbl r = Inl IntegrityError"
  by (simp add: keyed_insert_def)

lemma keyed_insert_new:
  "key r \<notin> set (map key tbl) \<Longrightarrow> keyed_insert key tbl r = Inr (tbl @ [r])"
  by (simp add: keyed_insert_def)

lemma rows_all_present:
  assumes "\<forall>row\<in>set rows. key (format_row fmt row) \<in> set (map key tbl)"
  shows "to_access_rows (keyed_insert key) fmt str c0 rows (tbl, out) =
           Inr (tbl, out @ map (not_inserted str c0) rows)"
  using assms
proof (induction rows arbitrary: out)
  case Nil
  show ?case by simp
next
  case (Cons row rows)
  have p: "key (format_row fmt row) \<in> set (map key tbl)"
    using Cons.prems by simp
  have "keyed_insert key tbl (format_row fmt row) = Inl IntegrityError"
    using p by (rule keyed_insert_present)
  moreover have "to_access_rows (keyed_insert key) fmt str c0 rows
      (tbl, out @ [not_inserted str c0 row]) =
      Inr (tbl, (out @ [not_inserted str c0 row]) @ map (not_inserted str c0) rows)"
    using Cons.prems by (intro Cons.IH) simp
  ultimately show ?case by simp
qed

lemma rows_load:
  assumes "distinct (map key tbl)"
  shows "\<exists>new skipped.
      to_access_rows (keyed_insert key) fmt str c0 rows (tbl, out) =
        Inr (tbl @ new, out @ map (not_inserted str c0) skipped) \<and>
      length new + length skipped = length rows \<and>
      set new \<subseteq> format_row fmt ` set rows \<and>
      set skipped \<subseteq> set rows \<and>
      distinct (map key (tbl @ new)) \<and>
      (\<forall>row\<in>set rows. key (format_row fmt row) \<in> set (map key (tbl @ new)))"
  using assms
proof (induction rows arbitrary: tbl out)
  case Nil
  have "to_access_rows (keyed_insert key) fmt str c0 [] (tbl, out) =
      Inr (tbl @ [], out @ map (not_inserted str c0) [])" by simp
  with Nil show ?case by (intro exI [of _ "[]"]) simp
next
  case (Cons row rows)
  let ?r = "format_row fmt row"
  show ?case
  proof (cases "key ?r \<in> set (map key tbl)")
    case True
    from Cons.IH [OF Cons.prems, of "out @ [not_inserted str c0 row]"]
    obtain new skipped where
      ih: "to_access_rows (keyed_insert key) fmt str c0 rows
             (tbl, out @ [not_inserted str c0 row]) =
           Inr (tbl @ new, (out @ [not_inserted str c0 row]) @ map (not_inserted str c0) skipped)"
        "length new + length skipped = length rows"
        "set new \<subseteq> format_row fmt ` set rows"
        "set skipped \<subseteq> set rows"
        "distinct (map key (tbl @ new))"
        "\<forall>row\<in>set rows. key (format_row fmt row) \<in> set (map key (tbl @ new))"
      by blast
    have 1: "to_access_rows (keyed_insert key) fmt str c0 (row # rows) (tbl, out) =
        Inr (tbl @ new, out @ map (not_inserted str c0) (row # skipped))"
      using ih(1) by (simp add: keyed_insert_present [OF True])
    have 2: "length new + length (row # skipped) = length (row # rows)"
      using ih(2) by simp
    have 3: "set new \<subseteq> format_row fmt ` set (row # rows)" using ih(3) by auto
    have 4: "set (row # skipped) \<subseteq> set (row # rows)" using ih(4) by auto
    have 6: "\<forall>x\<in>set (row # rows). key (format_row fmt x) \<in> set (map key (tbl @ new))"
      using ih(6) True by auto
    from 1 2 3 4 ih(5) 6 show ?thesis by blast
  next
    case False
    have d: "distinct (map key (tbl @ [?r]))" using Cons.prems False by simp
    from Cons.IH [OF d, of out]
    obtain new skipped where
      ih: "to_access_rows (keyed_insert key) fmt str c0 rows (tbl @ [?r], out) =
           Inr ((tbl @ [?r]) @ new, out @ map (not_inserted str c0) skipped)"
        "length new + length skipped = length rows"
        "set new \<subseteq> format_row fmt ` set rows"
        "set skipped \<subseteq> set rows"
        "distinct (map key ((tbl @ [?r]) @ new))"
        "\<forall>row\<in>set rows. key (format_row fmt row) \<in> set (map key ((tbl @ [?r]) @ new))"
      by blast
    have 1: "to_access_rows (keyed_insert key) fmt str c0 (row # rows) (tbl, out) =
        Inr (tbl @ (?r # new), out @ map (not_inserted str c0) skipped)"
      using ih(1) by (simp add: keyed_insert_new [OF False])
    have 2: "length (?r # new) + length skipped = length (row # rows)"
      using ih(2) by simp
    have 3: "set (?r # new) \<subseteq> format_row fmt ` set (row # rows)" using ih(3) by auto
    have 4: "set skipped \<subseteq> set (row # rows)" using ih(4) by auto
    have 5: "distinct (map key (tbl @ (?r # new)))" using ih(5) by simp
    have 6: "\<forall>x\<in>set (row # rows). key (format_row fmt x) \<in> set (map key (tbl @ (?r # new)))"
      using ih(6) by auto
    from 1 2 3 4 5 6 show ?thesis by blast
  qed
qed

lemma rows_never_abort:
  assumes "\<forall>db r. exec db r \<noteq> Inl OtherDatabaseError"
  shows "\<exists>res. to_access_rows exec fmt str c0 rows (db, out) = Inr res"
proof (induction rows arbitrary: db out)
  case Nil
  show ?case by simp
next
  case (Cons row rows)
  show ?case
  proof (cases "exec db (format_row fmt row)")
    case (Inr db')
    with Cons.IH [of db' out] show ?thesis by simp
  next
    case (Inl e)
    with assms have "e = IntegrityError" by (cases e) auto
    with Inl Cons.IH [of db "out @ [not_inserted str c0 row]"] show ?thesis by simp
  qed
qed

text \<open>
  Claim C7. Loading rows into a table that enforces its primary key never aborts: every
  row is attempted, and each one is either stored or skipped with the warning that names
  its index value. After the load every row's key is stored exactly once. Loading the
  same rows a second time leaves the table as it is and logs one warning for each row.
  For any store that raises nothing but \<open>IntegrityError\<close> the loop returns normally.
\<close>

theorem to_access_rows_idempotent:
  assumes "distinct (map key tbl)"
  shows "\<exists>tbl1 out1 skipped.
      to_access_rows (keyed_insert key) fmt str c0 rows (tbl, out) = Inr (tbl1, out1) \<and>
      out1 = out @ map (not_inserted str c0) skipped \<and> set skipped \<subseteq> set rows \<and>
      length tbl1 + length skipped = length tbl + length rows \<and>
      distinct (map key tbl1) \<and>
      (\<forall>row\<in>set rows. key (format_row fmt row) \<in> set (map key tbl1)) \<and>
      to_access_rows (keyed_insert key) fmt str c0 rows (tbl1, out1) =
        Inr (tbl1, out1 @ map (not_inserted str c0) rows) \<and>
      ((\<forall>db r. exec db r \<noteq> Inl OtherDatabaseError) \<longrightarrow>
         (\<exists>res. to_access_rows exec fmt str c0 rows (db0, out) = Inr res))"
proof -
  have na: "(\<forall>db r. exec db r \<noteq> Inl OtherDatabaseError) \<longrightarrow>
         (\<exists>res. to_access_rows exec fmt str c0 rows (db0, out) = Inr res)"
  proof
    assume "\<forall>db r. exec db r \<noteq> Inl OtherDatabaseError"
    then show "\<exists>res. to_access_rows exec fmt str c0 rows (db0, out) = Inr res"
      by (rule rows_never_abort)
  qed
  from rows_load [OF assms, of fmt str c0 rows out]
  obtain new skipped where
    l: "to_access_rows (keyed_insert key) fmt str c0 rows (tbl, out) =
          Inr (tbl @ new, out @ map (not_inserted str c0) skipped)"
      "length new + length skipped = length rows"
      "set skipped \<subseteq> set rows"
      "distinct (map key (tbl @ new))"
      "\<forall>row\<in>set rows. key (format_row fmt row) \<in> set (map key (tbl @ new))"
    by blast
  have again: "to_access_rows (keyed_insert key) fmt str c0 rows
      (tbl @ new, out @ map (not_inserted str c0) skipped) =
      Inr (tbl @ new, (out @ map (not_inserted str c0) skipped) @ map (not_inserted str c0) rows)"
    using l(5) by (rule rows_all_present)
  have len: "length (tbl @ new) + length skipped = length tbl + length rows"
    using l(2) by simp
  from l(1) l(3) len l(4) l(5) again na show ?thesis by blast
qed

theorem to_access_rows_idempotent_witness:
  "to_access_rows (keyed_insert (\<lambda>r. take 1 r)) (\<lambda>v. v) (\<lambda>v. v) ''CDP''
      [(''1'', [''a'']), (''2'', [''b'']), (''1'', [''c''])] ([], []) =
     Inr ([[''1'', ''a''], [''2'', ''b'']], [''CDP = 1 already exists. Not inserted'']) \<and>
   to_access_rows (keyed_insert (\<lambda>r. take 1 r)) (\<lambda>v. v) (\<lambda>v. v) ''CDP''
      [(''1'', [''a'']), (''2'', [''b'']), (''1'', [''c''])]
      ([[''1'', ''a''], [''2'', ''b'']], [''CDP = 1 already exists. Not inserted'']) =
     Inr ([[''1'', ''a''], [''2'', ''b'']],
          [''CDP = 1 already exists. Not inserted'', ''CDP = 1 already exists. Not inserted'',
           ''CDP = 2 already exists. Not inserted'', ''CDP = 1 already exists. Not inserted''])"
proof -
  let ?rows = "[(''1'', [''a'']), (''2'', [''b'']), (''1'', [''c''])]"
  have d: "distinct (map (\<lambda>r. take 1 r) ([] :: string list list))" by simp
  have e: "to_access_rows (keyed_insert (\<lambda>r. take 1 r)) (\<lambda>v. v) (\<lambda>v. v) ''CDP'' ?rows ([], []) =
     Inr ([[''1'', ''a''], [''2'', ''b'']], [''CDP = 1 already exists. Not inserted''])"
    by (simp add: keyed_insert_def format_row_def not_inserted_def)
  from to_access_rows_idempotent [OF d, of "\<lambda>v. v" "\<lambda>v. v" "''CDP''" ?rows "[]"
      "keyed_insert (\<lambda>r. take 1 r)" "[]"]
  obtain tbl1 out1 where
    t: "to_access_rows (keyed_insert (\<lambda>r. take 1 r)) (\<lambda>v. v) (\<lambda>v. v) ''CDP'' ?rows ([], []) =
          Inr (tbl1, out1)"
       "to_access_rows (keyed_insert (\<lambda>r. take 1 r)) (\<lambda>v. v) (\<lambda>v. v) ''CDP'' ?rows (tbl1, out1) =
          Inr (tbl1, out1 @ map (not_inserted (\<lambda>v. v) ''CDP'') ?rows)"
    by blast
  from t(1) e have eq: "tbl1 = [[''1'', ''a''], [''2'', ''b'']]"
      "out1 = [''CDP = 1 already exists. Not inserted'']" by simp_all
  from t(2) have "to_access_rows (keyed_insert (\<lambda>r. take 1 r)) (\<lambda>v. v) (\<lambda>v. v) ''CDP'' ?rows
      ([[''1'', ''a''], [''2'', ''b'']], [''CDP = 1 already exists. Not inserted'']) =
     Inr ([[''1'', ''a''], [''2'', ''b'']],
          [''CDP = 1 already exists. Not inserted''] @ map (not_inserted (\<lambda>v. v) ''CDP'') ?rows)"
    unfolding eq .
  then show ?thesis using e by (simp add: not_inserted_def)
qed

end
